theory Spec2Isabelle
  imports Complex_Main
begin

section \<open>The kvl store: a shallow embedding of src/index.ts\<close>

text \<open>
  The class \<open>KVL\<close> wraps one SQLite table \<open>kvl\<close>. Every public method is one or
  two SQL statements run one after the other. The embedding keeps the table as the list
  of its rows in rowid order and writes each statement as a list operation:
  \<^item> \<open>WHERE\<close> is \<open>filter\<close>, \<open>ORDER BY c\<close> is the stable sort \<open>sort_key c\<close> (for \<open>DESC\<close>
    reversed when \<open>c\<close> is the unique rowid, on the negated column otherwise),
    \<open>LIMIT 1\<close> / \<open>.get\<close> takes the first row of the result;
  \<^item> \<open>Date.now()\<close> and \<open>crypto.randomUUID()\<close> are read from the environment, so the
    time and the token are arguments of the method that reads them;
  \<^item> a method that mutates the table returns the new store;
  \<^item> a \<open>throw\<close> is the \<open>Inl\<close> of a sum.
  JavaScript numbers are modelled as integers (timestamps, page numbers and sizes are
  integers in every use); the one place where a non-finite number can arise, the
  division by \<open>pageSize\<close>, is written out.
\<close>

subsection \<open>Data\<close>

text \<open>
  Modelled from the spec: the schema that \<open>makeDB\<close> creates (the module \<open>./makeDB\<close> is
  imported by the source but is not part of it). The spec gives the columns
  \<open>id\<close> (auto-increment integer, primary key), \<open>key\<close> (unique string), \<open>value\<close> (string),
  \<open>labels\<close> (nullable string), \<open>createTime\<close> and \<open>updateTime\<close> (integers).
  The column \<open>id\<close> is the field \<open>rowid\<close> and \<open>value\<close> is the field \<open>val\<close>.
\<close>

record row =
  rowid :: nat
  key :: string
  val :: string
  labels :: "string option"
  createTime :: int
  updateTime :: int

text \<open>
  The object: the table (\<open>rows\<close>, in rowid order), the auto-increment counter of the
  table (\<open>seq\<close>, the largest rowid handed out so far) and the constructor argument
  \<open>expireTimeMs\<close> (\<open>None\<close> when it was not given).
\<close>

record kvl =
  rows :: "row list"
  seq :: nat
  expireTimeMs :: "int option"

text \<open>What a method hands back to JavaScript: a string, \<open>null\<close> or \<open>undefined\<close>.\<close>

datatype jsval = Undefined | Null | Str string

text \<open>
  The two exceptions: \<open>Error('item does not exist')\<close> thrown by \<open>tags\<close>, and the
  \<open>RangeError\<close> of better-sqlite3 when a statement is run with fewer values than it has
  \<open>?\<close> placeholders.
\<close>

datatype error = ItemDoesNotExist | TooFewParameters

text \<open>
  Modelled from the spec: the constraints of the schema, as an invariant of the table.
  Rowids are positive, strictly increasing along the table and never above the
  auto-increment counter; keys are unique.
\<close>

definition valid :: "kvl \<Rightarrow> bool" where
  "valid s \<longleftrightarrow>
     sorted_wrt (<) (map rowid (rows s)) \<and>
     list_all (\<lambda>r. 0 < rowid r \<and> rowid r \<le> seq s) (rows s) \<and>
     distinct (map key (rows s))"

subsection \<open>The LIKE operator\<close>

text \<open>
  SQLite's \<open>LIKE\<close> without \<open>ESCAPE\<close>: \<open>%\<close> in the pattern matches any run of characters,
  \<open>_\<close> matches any one character, and every other character matches itself, upper and
  lower case ASCII letters being the same. (\<open>=\<close> on the other hand compares exactly.)
\<close>

definition to_lower :: "char \<Rightarrow> char" where
  "to_lower c =
     (case map_of (zip ''ABCDEFGHIJKLMNOPQRSTUVWXYZ'' ''abcdefghijklmnopqrstuvwxyz'') c of
        None \<Rightarrow> c
      | Some l \<Rightarrow> l)"

fun like :: "string \<Rightarrow> string \<Rightarrow> bool" where
  "like [] s = (s = [])"
| "like (p # ps) [] = (p = CHR ''%'' \<and> like ps [])"
| "like (p # ps) (c # cs) =
     (if p = CHR ''%'' then like ps (c # cs) \<or> like (p # ps) cs
      else (p = CHR ''_'' \<or> to_lower p = to_lower c) \<and> like ps cs)"

text \<open>
  The engine reads the pattern and the text of \<open>LIKE\<close> as C strings: each of them ends
  before its first NUL character, if it has one.
\<close>

definition cstr :: "string \<Rightarrow> string" where
  "cstr s = takeWhile (\<lambda>c. c \<noteq> CHR 0x00) s"

definition sql_like :: "string \<Rightarrow> string \<Rightarrow> bool" where
  "sql_like p s = like (cstr p) (cstr s)"

text \<open>The rows selected by \<open>WHERE key LIKE ? || ':%'\<close> with \<open>?\<close> bound to \<open>name\<close>.\<close>

definition members :: "string \<Rightarrow> kvl \<Rightarrow> row list" where
  "members name s = filter (\<lambda>r. sql_like (name @ '':%'') (key r)) (rows s)"

subsection \<open>set and get\<close>

text \<open>
  \<open>INSERT OR IGNORE INTO kvl (createTime, updateTime, key, value) VALUES (?, ?, ?, ?)\<close>:
  the statement takes the next rowid from the counter; when the key is taken no row is
  written (the rowid is used up all the same), otherwise the row gets that rowid and no
  labels.
\<close>

definition insert_or_ignore :: "int \<Rightarrow> int \<Rightarrow> string \<Rightarrow> string \<Rightarrow> kvl \<Rightarrow> kvl" where
  "insert_or_ignore ct ut k v s =
     (if k \<in> set (map key (rows s)) then s\<lparr>seq := Suc (seq s)\<rparr>
      else s\<lparr>rows := rows s @
                [\<lparr>rowid = Suc (seq s), key = k, val = v, labels = None,
                  createTime = ct, updateTime = ut\<rparr>],
             seq := Suc (seq s)\<rparr>)"

text \<open>\<open>UPDATE kvl SET value = ?, updateTime = ? WHERE key = ?\<close>\<close>

definition update_value :: "string \<Rightarrow> int \<Rightarrow> string \<Rightarrow> kvl \<Rightarrow> kvl" where
  "update_value v t k s =
     s\<lparr>rows := map (\<lambda>r. if key r = k then r\<lparr>val := v, updateTime := t\<rparr> else r) (rows s)\<rparr>"

text \<open>\<open>set(key, value)\<close>; \<open>time\<close> is what \<open>Date.now()\<close> returns.\<close>

definition set_kvl :: "string \<Rightarrow> string \<Rightarrow> int \<Rightarrow> kvl \<Rightarrow> kvl" where
  "set_kvl k v time s = update_value v time k (insert_or_ignore time time k v s)"

text \<open>\<open>get(key)\<close>: \<open>SELECT value FROM kvl WHERE key = ?\<close>, then \<open>item?.value\<close>.\<close>

definition get :: "string \<Rightarrow> kvl \<Rightarrow> jsval" where
  "get k s = (case find (\<lambda>r. key r = k) (rows s) of None \<Rightarrow> Undefined | Some item \<Rightarrow> Str (val item))"

subsection \<open>push, pop, shift, all\<close>

text \<open>\<open>push(name, value)\<close>; \<open>uuid\<close> is what \<open>crypto.randomUUID()\<close> returns.\<close>

definition push :: "string \<Rightarrow> string \<Rightarrow> string \<Rightarrow> int \<Rightarrow> kvl \<Rightarrow> string \<times> kvl" where
  "push name v uuid time s =
     (let k = name @ '':'' @ uuid in (k, set_kvl k v time s))"

text \<open>\<open>DELETE FROM kvl WHERE id = ?\<close>\<close>

definition delete_by_id :: "nat \<Rightarrow> kvl \<Rightarrow> kvl" where
  "delete_by_id i s = s\<lparr>rows := filter (\<lambda>r. rowid r \<noteq> i) (rows s)\<rparr>"

text \<open>
  \<open>pop(name)\<close>: the member with the largest id (\<open>ORDER BY id DESC LIMIT 1\<close>); it is
  deleted when its id is truthy, that is, not \<open>0\<close>.
\<close>

definition pop :: "string \<Rightarrow> kvl \<Rightarrow> jsval \<times> kvl" where
  "pop name s =
     (case rev (sort_key rowid (members name s)) of
        [] \<Rightarrow> (Undefined, s)
      | item # _ \<Rightarrow>
          (Str (val item), if rowid item \<noteq> 0 then delete_by_id (rowid item) s else s))"

text \<open>\<open>shift(name)\<close>: the same with \<open>ORDER BY id ASC\<close>.\<close>

definition shift :: "string \<Rightarrow> kvl \<Rightarrow> jsval \<times> kvl" where
  "shift name s =
     (case sort_key rowid (members name s) of
        [] \<Rightarrow> (Undefined, s)
      | item # _ \<Rightarrow>
          (Str (val item), if rowid item \<noteq> 0 then delete_by_id (rowid item) s else s))"

text \<open>
  \<open>all(name)\<close>: the columns \<open>createTime, updateTime, key, value\<close> of the members,
  \<open>ORDER BY createTime DESC\<close>. SQL leaves the order of rows with equal \<open>createTime\<close>
  open; the engine returns them in rowid order, which is what a stable sort on the
  negated \<open>createTime\<close> gives. No result below depends on the order of such rows.
\<close>

definition all_kvl :: "string \<Rightarrow> kvl \<Rightarrow> (int \<times> int \<times> string \<times> string) list" where
  "all_kvl name s =
     map (\<lambda>r. (createTime r, updateTime r, key r, val r))
       (sort_key (\<lambda>r. - createTime r) (members name s))"

subsection \<open>tags\<close>

text \<open>\<open>UPDATE kvl SET labels = ?, updateTime = ? WHERE key = ?\<close>\<close>

definition update_labels :: "string \<Rightarrow> int \<Rightarrow> string \<Rightarrow> kvl \<Rightarrow> kvl" where
  "update_labels l t k s =
     s\<lparr>rows := map (\<lambda>r. if key r = k then r\<lparr>labels := Some l, updateTime := t\<rparr> else r) (rows s)\<rparr>"

text \<open>
  \<open>tags(key, tags?)\<close>: without the second argument it reads the labels (which are
  \<open>null\<close> until they are written), with it it writes them. \<open>result.changes\<close> is the
  number of rows the \<open>UPDATE\<close> matched. \<open>Date.now()\<close> is read in the write branch only.
\<close>

definition tags :: "string \<Rightarrow> string option \<Rightarrow> int \<Rightarrow> kvl \<Rightarrow> error + (jsval \<times> kvl)" where
  "tags k tgs time s =
     (case tgs of
        None \<Rightarrow>
          (case find (\<lambda>r. key r = k) (rows s) of
             None \<Rightarrow> Inl ItemDoesNotExist
           | Some item \<Rightarrow> Inr ((case labels item of None \<Rightarrow> Null | Some l \<Rightarrow> Str l), s))
      | Some t \<Rightarrow>
          (let changes = length (filter (\<lambda>r. key r = k) (rows s))
           in if changes < 1 then Inl ItemDoesNotExist
              else Inr (Undefined, update_labels t time k s)))"

subsection \<open>expire\<close>

text \<open>
  \<open>expire()\<close>: returns at once when \<open>expireTimeMs\<close> is falsy (\<open>undefined\<close> or \<open>0\<close>);
  otherwise \<open>DELETE FROM kvl WHERE updateTime <= ?\<close> with \<open>Date.now() - expireTimeMs\<close>.
  The \<open>VACUUM\<close> that follows a deletion does not change the table's content.
\<close>

definition expire :: "int \<Rightarrow> kvl \<Rightarrow> kvl" where
  "expire now s =
     (case expireTimeMs s of
        None \<Rightarrow> s
      | Some e \<Rightarrow>
          if e = 0 then s
          else s\<lparr>rows := filter (\<lambda>r. \<not> updateTime r \<le> now - e) (rows s)\<rparr>)"

subsection \<open>page\<close>

datatype operator = AND | OR

datatype order_col = CreateTime | UpdateTime

datatype order_dir = ASC | DESC

text \<open>
  A number that a division can produce: an integer, or \<open>Infinity\<close> and \<open>NaN\<close> when the
  divisor is \<open>0\<close>.
\<close>

datatype jsnum = Fin int | Infinity | NaN

text \<open>The local variables of \<open>page\<close> when its body has run.\<close>

record page_vars =
  total :: int
  pages :: jsnum
  pageNum :: int

text \<open>
  The body of \<open>page\<close>. The defaults \<open>pageNum = 1\<close> and \<open>pageSize = 10\<close> stand in for a
  missing argument. The counting statement has one placeholder for the name and one
  more for each tag, and it is run with the name alone: with a non-empty \<open>tags\<close> array
  the call throws. Otherwise the filter is \<open>1 = 1\<close> and \<open>total\<close> counts the members.
  \<open>Math.floor(lastOffset / pageSize)\<close> is \<open>div\<close> for a non-zero \<open>pageSize\<close>.
\<close>

definition page_body ::
  "string \<Rightarrow> int option \<Rightarrow> int option \<Rightarrow> string list option \<Rightarrow> operator option \<Rightarrow> kvl
     \<Rightarrow> error + page_vars" where
  "page_body name pageNum0 pageSize0 tgs tagsOperator s =
     (let pageNum1 = (case pageNum0 of None \<Rightarrow> 1 | Some n \<Rightarrow> n);
          pageSize = (case pageSize0 of None \<Rightarrow> 10 | Some n \<Rightarrow> n)
      in if (case tgs of None \<Rightarrow> False | Some ts \<Rightarrow> ts \<noteq> []) then Inl TooFewParameters
         else
           let total1 = int (length (members name s));
               lastOffset = (if total1 > 0 then total1 - 1 else 0);
               pages1 = (if pageSize = 0 then (if lastOffset = 0 then NaN else Infinity)
                         else Fin (lastOffset div pageSize + 1))
           in Inr \<lparr>total = total1, pages = pages1,
                    pageNum = (case pages1 of
                                 Fin p \<Rightarrow> if pageNum1 > p then p else pageNum1
                               | _ \<Rightarrow> pageNum1)\<rparr>)"

text \<open>
  \<open>page(name, pageNum, pageSize, tags, tagsOperator, orderBy, orderDir)\<close>: the body has
  no \<open>return\<close>, so a call that does not throw evaluates to \<open>undefined\<close>; \<open>orderBy\<close> and
  \<open>orderDir\<close> are never read.
\<close>

definition page ::
  "string \<Rightarrow> int option \<Rightarrow> int option \<Rightarrow> string list option \<Rightarrow> operator option \<Rightarrow>
     order_col option \<Rightarrow> order_dir option \<Rightarrow> kvl \<Rightarrow> error + jsval" where
  "page name pageNum0 pageSize0 tgs tagsOperator orderBy orderDir s =
     (case page_body name pageNum0 pageSize0 tgs tagsOperator s of
        Inl e \<Rightarrow> Inl e
      | Inr vars \<Rightarrow> Inr Undefined)"

subsection \<open>The constructor\<close>

text \<open>
  \<open>new KVL(file, expireTimeMs)\<close> opens the table stored in the file (\<open>rows0\<close> and \<open>seq0\<close>;
  empty and \<open>0\<close> when the file was just created) and runs \<open>expire()\<close> once. The timer it
  starts runs \<open>expire()\<close> again between, never inside, later calls.
\<close>

definition new_KVL :: "row list \<Rightarrow> nat \<Rightarrow> int option \<Rightarrow> int \<Rightarrow> kvl" where
  "new_KVL rows0 seq0 e now = expire now \<lparr>rows = rows0, seq = seq0, expireTimeMs = e\<rparr>"

subsection \<open>Programs over the store\<close>

text \<open>
  A client is a sequence of method calls, each with the clock reading at the call; a
  firing of the timer is the call \<open>Expire\<close>. \<open>exec\<close> gives the store after one call (a call
  that throws leaves the table as it was: \<open>tags\<close> throws only when its \<open>UPDATE\<close> matched
  no row), \<open>run\<close> the store after all of them.
\<close>

datatype call =
    Set string string
  | Get string
  | Push string string string
  | Pop string
  | Shift string
  | All string
  | Tags string "string option"
  | Page string "int option" "int option" "string list option" "operator option"
  | Expire

fun exec :: "call \<Rightarrow> int \<Rightarrow> kvl \<Rightarrow> kvl" where
  "exec (Set k v) t s = set_kvl k v t s"
| "exec (Get k) t s = s"
| "exec (Push name v uuid) t s = snd (push name v uuid t s)"
| "exec (Pop name) t s = snd (pop name s)"
| "exec (Shift name) t s = snd (shift name s)"
| "exec (All name) t s = s"
| "exec (Tags k tgs) t s = (case tags k tgs t s of Inl e \<Rightarrow> s | Inr (x, s') \<Rightarrow> s')"
| "exec (Page name pn ps tgs opr) t s = s"
| "exec Expire t s = expire t s"

fun run :: "(call \<times> int) list \<Rightarrow> kvl \<Rightarrow> kvl" where
  "run [] s = s"
| "run ((c, t) # cs) s = run cs (exec c t s)"

text \<open>Pushing a sequence of values (each with its token and clock reading) to one list.\<close>

fun push_all :: "string \<Rightarrow> (string \<times> string \<times> int) list \<Rightarrow> kvl \<Rightarrow> kvl" where
  "push_all name [] s = s"
| "push_all name ((v, uuid, t) # ps) s = push_all name ps (snd (push name v uuid t s))"

text \<open>\<open>n\<close> consecutive calls of \<open>shift\<close>, of \<open>pop\<close>: the values returned, and the store left.\<close>

fun shift_n :: "nat \<Rightarrow> string \<Rightarrow> kvl \<Rightarrow> jsval list \<times> kvl" where
  "shift_n 0 name s = ([], s)"
| "shift_n (Suc n) name s =
     (case shift name s of (x, s') \<Rightarrow> (case shift_n n name s' of (xs, s'') \<Rightarrow> (x # xs, s'')))"


text \<open>
  How the rows of a later table \<open>s'\<close> relate to those of an earlier table \<open>s\<close>: the counter
  has not gone back, and every row of \<open>s'\<close> either has a rowid handed out after \<open>s\<close> or
  is a row of \<open>s\<close> with the same rowid, key and \<open>createTime\<close>.
\<close>

definition carried :: "kvl \<Rightarrow> kvl \<Rightarrow> bool" where
  "carried s s' \<longleftrightarrow>
     seq s \<le> seq s' \<and>
     (\<forall>r' \<in> set (rows s'). seq s < rowid r' \<or>
        (\<exists>r \<in> set (rows s). rowid r = rowid r' \<and> key r = key r' \<and> createTime r = createTime r'))"

text \<open>A store to try the methods on: two members of list \<open>q\<close> and one plain key.\<close>

definition store0 :: kvl where
  "store0 =
     \<lparr>rows =
        [\<lparr>rowid = 1, key = ''q:u1'', val = ''a'', labels = None, createTime = 100, updateTime = 100\<rparr>,
         \<lparr>rowid = 2, key = ''k'', val = ''x'', labels = Some ''red'', createTime = 110, updateTime = 150\<rparr>,
         \<lparr>rowid = 4, key = ''q:u2'', val = ''b'', labels = None, createTime = 120, updateTime = 120\<rparr>],
      seq = 4, expireTimeMs = Some 50\<rparr>"

text \<open>The same table in a store constructed with \<open>expireTimeMs = 0\<close>.\<close>

definition store_zero :: kvl where
  "store_zero = store0\<lparr>expireTimeMs := Some 0\<rparr>"

definition empty_store :: kvl where
  "empty_store = \<lparr>rows = [], seq = 0, expireTimeMs = None\<rparr>"

section \<open>Properties\<close>

subsection \<open>LIKE\<close>

lemma to_lower_colon: "to_lower c = CHR '':'' \<longleftrightarrow> c = CHR '':''"
  by (auto simp: to_lower_def split: option.splits if_splits)

lemma to_lower_colon_left: "to_lower CHR '':'' = to_lower c \<longleftrightarrow> c = CHR '':''"
  by (auto simp: to_lower_def split: option.splits if_splits)

lemma to_lower_colon_right: "to_lower c = to_lower CHR '':'' \<longleftrightarrow> c = CHR '':''"
  by (auto simp: to_lower_def split: option.splits if_splits)

lemma like_percent_all: "like ''%'' s"
  by (induction s) auto

lemma like_percent_skip: "like ps s \<Longrightarrow> like (CHR ''%'' # ps) s"
  by (cases s) auto

lemma like_percent_drop: "like (CHR ''%'' # ps) s \<Longrightarrow> like (CHR ''%'' # ps) (c # s)"
  by simp

lemma like_own_key: "like (name @ '':%'') (name @ '':'' @ uuid)"
proof (induction name)
  case Nil
  show ?case using like_percent_all by simp
next
  case (Cons p ps)
  show ?case
  proof (cases "p = CHR ''%''")
    case True
    with Cons show ?thesis by (simp add: like_percent_skip)
  next
    case False
    with Cons show ?thesis by simp
  qed
qed

lemma like_refl: "like p p"
proof (induction p)
  case Nil show ?case by simp
next
  case (Cons c cs)
  then show ?case by (cases "c = CHR ''%''") (simp_all add: like_percent_skip)
qed

lemma cstr_no_nul: "CHR 0x00 \<notin> set s \<Longrightarrow> cstr s = s"
  by (induction s) (auto simp: cstr_def)

lemma cstr_append: "CHR 0x00 \<notin> set a \<Longrightarrow> cstr (a @ b) = a @ cstr b"
  by (induction a) (auto simp: cstr_def)

lemma cstr_nul: "CHR 0x00 \<in> set a \<Longrightarrow> cstr (a @ b) = cstr a"
  unfolding cstr_def by (rule takeWhile_append1[where x="CHR 0x00"]) simp_all

lemma sql_like_own_key: "sql_like (name @ '':%'') (name @ '':'' @ rest)"
proof (cases "CHR 0x00 \<in> set name")
  case True
  then show ?thesis by (simp add: sql_like_def cstr_nul like_refl)
next
  case False
  have "cstr '':%'' = '':%''" by (simp add: cstr_def)
  moreover have "cstr ('':'' @ rest) = '':'' @ cstr rest" by (simp add: cstr_def)
  ultimately show ?thesis
    using False like_own_key[of name "cstr rest"] by (simp add: sql_like_def cstr_append)
qed

lemma like_prefix:
  "CHR ''%'' \<notin> set b \<Longrightarrow> CHR ''_'' \<notin> set b \<Longrightarrow>
   like (b @ '':%'') k \<longleftrightarrow> map to_lower (take (Suc (length b)) k) = map to_lower (b @ '':'')"
proof (induction b arbitrary: k)
  case Nil
  then show ?case
    by (cases k) (simp_all add: like_percent_all to_lower_colon_left to_lower_colon_right)
next
  case (Cons p ps)
  then have IH: "\<And>k. like (ps @ '':%'') k \<longleftrightarrow> map to_lower (take (Suc (length ps)) k) = map to_lower (ps @ '':'')"
    by simp
  from Cons.prems have p: "p \<noteq> CHR ''%''" "p \<noteq> CHR ''_''" by auto
  show ?case
  proof (cases k)
    case Nil
    with p show ?thesis by simp
  next
    case (Cons c cs)
    with p IH[of cs] show ?thesis by (simp add: eq_commute[of "to_lower c"])
  qed
qed

lemma take_takeWhile: "n \<le> length (takeWhile P xs) \<Longrightarrow> take n (takeWhile P xs) = take n xs"
proof -
  assume n: "n \<le> length (takeWhile P xs)"
  have "take n xs = take n (takeWhile P xs @ dropWhile P xs)" by simp
  also have "\<dots> = take n (takeWhile P xs)" using n by (simp only: take_append) simp
  finally show ?thesis by simp
qed

lemma like_cstr:
  assumes "CHR ''%'' \<notin> set b" "CHR ''_'' \<notin> set b" "like (b @ '':%'') (cstr k)"
  shows "like (b @ '':%'') k"
proof -
  from assms have eq: "map to_lower (take (Suc (length b)) (cstr k)) = map to_lower (b @ '':'')"
    by (simp add: like_prefix)
  then have "length (map to_lower (take (Suc (length b)) (cstr k))) = length (map to_lower (b @ '':''))"
    by simp
  then have "Suc (length b) \<le> length (cstr k)" by simp
  then have "take (Suc (length b)) (cstr k) = take (Suc (length b)) k"
    unfolding cstr_def by (rule take_takeWhile)
  with eq have "map to_lower (take (Suc (length b)) k) = map to_lower (b @ '':'')" by simp
  with assms(1,2) show ?thesis by (simp add: like_prefix)
qed

lemma like_colon_in:
  "CHR ''%'' \<notin> set ps \<Longrightarrow> CHR ''_'' \<notin> set ps \<Longrightarrow> like (ps @ '':%'') t \<Longrightarrow> CHR '':'' \<in> set t"
proof (induction ps arbitrary: t)
  case Nil
  then show ?case by (cases t) (simp_all add: to_lower_colon_left)
next
  case (Cons p ps)
  then show ?case by (cases t) auto
qed

lemma like_isolated:
  "CHR ''%'' \<notin> set b \<Longrightarrow> CHR ''_'' \<notin> set b \<Longrightarrow> CHR '':'' \<notin> set tok \<Longrightarrow>
   like (b @ '':%'') (a @ '':'' @ tok) \<Longrightarrow>
   map to_lower (take (Suc (length b)) (a @ '':'')) = map to_lower (b @ '':'')"
proof (induction b arbitrary: a)
  case Nil
  then show ?case by (cases a) (simp_all add: to_lower_colon_left eq_commute[of "to_lower CHR '':''"])
next
  case (Cons p ps)
  from Cons.prems have p: "p \<noteq> CHR ''%''" "p \<noteq> CHR ''_''"
    and ps: "CHR ''%'' \<notin> set ps" "CHR ''_'' \<notin> set ps" by auto
  show ?case
  proof (cases a)
    case Nil
    with Cons.prems(4) p have "like (ps @ '':%'') tok" by simp
    with ps have "CHR '':'' \<in> set tok" by (rule like_colon_in)
    with Cons.prems(3) show ?thesis by simp
  next
    case (Cons c cs)
    with Cons.prems(4) p have h: "to_lower p = to_lower c" "like (ps @ '':%'') (cs @ '':'' @ tok)"
      by simp_all
    from Cons.IH[OF ps Cons.prems(3) h(2)] h(1) Cons show ?thesis by simp
  qed
qed

lemma not_member_key:
  assumes "CHR 0x00 \<notin> set b" "CHR ''%'' \<notin> set b" "CHR ''_'' \<notin> set b" "CHR '':'' \<notin> set tok"
    and "map to_lower (take (Suc (length b)) (a @ '':'')) \<noteq> map to_lower (b @ '':'')"
  shows "\<not> sql_like (b @ '':%'') (a @ '':'' @ tok)"
proof
  assume "sql_like (b @ '':%'') (a @ '':'' @ tok)"
  moreover have "cstr '':%'' = '':%''" by (simp add: cstr_def)
  ultimately have "like (b @ '':%'') (cstr (a @ '':'' @ tok))"
    using assms(1) by (simp add: sql_like_def cstr_append)
  with assms(2,3) have "like (b @ '':%'') (a @ '':'' @ tok)" by (rule like_cstr)
  with assms(2,3,4) have "map to_lower (take (Suc (length b)) (a @ '':'')) = map to_lower (b @ '':'')"
    by (rule like_isolated)
  with assms(5) show False by contradiction
qed

subsection \<open>Invariant\<close>

lemma valid_insert_or_ignore: "valid s \<Longrightarrow> valid (insert_or_ignore ct ut k v s)"
  by (auto simp: valid_def insert_or_ignore_def sorted_wrt_append list_all_iff)

lemma key_update: "key \<circ> (\<lambda>r. if key r = k then r\<lparr>val := v, updateTime := t\<rparr> else r) = key"
  by (auto simp: fun_eq_iff)

lemma rowid_update: "rowid \<circ> (\<lambda>r. if key r = k then r\<lparr>val := v, updateTime := t\<rparr> else r) = rowid"
  by (auto simp: fun_eq_iff)

lemma valid_update_value: "valid s \<Longrightarrow> valid (update_value v t k s)"
  by (auto simp: valid_def update_value_def key_update rowid_update list_all_iff)

lemma valid_set_kvl: "valid s \<Longrightarrow> valid (set_kvl k v t s)"
  by (simp add: set_kvl_def valid_update_value valid_insert_or_ignore)

lemma valid_filter: "valid s \<Longrightarrow> valid (s\<lparr>rows := filter P (rows s)\<rparr>)"
  by (auto simp: valid_def sorted_wrt_filter sorted_wrt_map list_all_iff distinct_map_filter)

lemma valid_delete_by_id: "valid s \<Longrightarrow> valid (delete_by_id i s)"
  by (simp add: delete_by_id_def valid_filter)

lemma valid_pop: "valid s \<Longrightarrow> valid (snd (pop name s))"
  by (simp add: pop_def valid_delete_by_id split: list.splits)

lemma valid_shift: "valid s \<Longrightarrow> valid (snd (shift name s))"
  by (simp add: shift_def valid_delete_by_id split: list.splits)

lemma valid_expire: "valid s \<Longrightarrow> valid (expire now s)"
  by (simp add: expire_def valid_filter split: option.splits)

lemma key_update_labels: "key \<circ> (\<lambda>r. if key r = k then r\<lparr>labels := l, updateTime := t\<rparr> else r) = key"
  by (auto simp: fun_eq_iff)

lemma rowid_update_labels: "rowid \<circ> (\<lambda>r. if key r = k then r\<lparr>labels := l, updateTime := t\<rparr> else r) = rowid"
  by (auto simp: fun_eq_iff)

lemma valid_update_labels: "valid s \<Longrightarrow> valid (update_labels l t k s)"
  by (auto simp: valid_def update_labels_def key_update_labels rowid_update_labels list_all_iff)

lemma valid_push: "valid s \<Longrightarrow> valid (snd (push name v uuid t s))"
  by (simp add: push_def Let_def valid_set_kvl)

lemma valid_tags: "valid s \<Longrightarrow> tags k tgs t s = Inr (x, s') \<Longrightarrow> valid s'"
  by (cases tgs) (auto simp: tags_def valid_update_labels split: option.splits if_splits)

lemma valid_exec: "valid s \<Longrightarrow> valid (exec c t s)"
proof (cases c)
  case (Tags k tgs)
  assume "valid s"
  then show ?thesis using Tags valid_tags[of s k tgs t]
    by (cases "tags k tgs t s") auto
qed (simp_all add: valid_set_kvl valid_push valid_pop valid_shift valid_expire)

lemma valid_run: "valid s \<Longrightarrow> valid (run cs s)"
  by (induction cs arbitrary: s) (auto simp: valid_exec)

subsection \<open>set\<close>

lemma filter_key_absent: "k \<notin> set (map key rs) \<Longrightarrow> filter (\<lambda>r. key r = k) rs = []"
  by (induction rs) auto

lemma filter_key_distinct:
  "distinct (map key rs) \<Longrightarrow> r \<in> set rs \<Longrightarrow> filter (\<lambda>x. key x = key r) rs = [r]"
  by (induction rs) (auto simp: filter_key_absent)

lemma key_in_set_kvl: "k \<in> key ` set (rows (set_kvl k v t s))"
proof (cases "k \<in> set (map key (rows s))")
  case True
  then have "rows (insert_or_ignore t t k v s) = rows s" by (simp add: insert_or_ignore_def)
  then have "map key (rows (set_kvl k v t s)) = map key (rows s)"
    by (simp add: set_kvl_def update_value_def key_update)
  with True show ?thesis by (metis list.set_map)
next
  case False
  then have "map key (rows (insert_or_ignore t t k v s)) = map key (rows s) @ [k]"
    by (simp add: insert_or_ignore_def)
  then have "map key (rows (set_kvl k v t s)) = map key (rows s) @ [k]"
    by (simp add: set_kvl_def update_value_def key_update)
  then have "k \<in> set (map key (rows (set_kvl k v t s)))" by simp
  then show ?thesis by (metis list.set_map)
qed

lemma upd_written:
  "r \<in> set (map (\<lambda>r. if key r = k then r\<lparr>val := v, updateTime := t\<rparr> else r) rs) \<Longrightarrow> key r = k
   \<Longrightarrow> val r = v \<and> updateTime r = t"
proof (induction rs)
  case Nil then show ?case by simp
next
  case (Cons a rs)
  show ?case
  proof (cases "r = (if key a = k then a\<lparr>val := v, updateTime := t\<rparr> else a)")
    case True
    with Cons.prems(2) show ?thesis by (cases "key a = k") simp_all
  next
    case False
    with Cons show ?thesis by simp
  qed
qed

lemma set_kvl_written:
  "r \<in> set (rows (set_kvl k v t s)) \<Longrightarrow> key r = k \<Longrightarrow> val r = v \<and> updateTime r = t"
  by (rule upd_written[where rs="rows (insert_or_ignore t t k v s)"])
     (simp_all add: set_kvl_def update_value_def)

lemma set_kvl_one:
  assumes "valid s"
  shows "\<exists>r. filter (\<lambda>x. key x = k) (rows (set_kvl k v t s)) = [r] \<and> val r = v \<and> updateTime r = t"
proof -
  let ?s' = "set_kvl k v t s"
  have "valid ?s'" using assms by (rule valid_set_kvl)
  then have d: "distinct (map key (rows ?s'))" by (simp add: valid_def)
  from key_in_set_kvl[of k v t s] obtain r where r: "r \<in> set (rows ?s')" and kr: "key r = k"
    by blast
  have one: "filter (\<lambda>x. key x = k) (rows ?s') = [r]"
    using filter_key_distinct[OF d r] unfolding kr .
  have "val r = v \<and> updateTime r = t" using r kr by (rule set_kvl_written)
  with one show ?thesis by blast
qed

lemma find_map_key:
  "key \<circ> f = key \<Longrightarrow> find (\<lambda>r. key r = k) (map f rs) = map_option f (find (\<lambda>r. key r = k) rs)"
  by (induction rs) (auto simp: fun_eq_iff)

lemma find_Some_key: "find (\<lambda>r. key r = k) rs = Some item \<Longrightarrow> k \<in> set (map key rs)"
  by (induction rs) (auto split: if_splits)

lemma find_Some_key_eq: "find (\<lambda>r. key r = k) rs = Some item \<Longrightarrow> key item = k"
  by (induction rs) (auto split: if_splits)

lemma find_None_key: "find (\<lambda>r. key r = k) rs = None \<longleftrightarrow> k \<notin> set (map key rs)"
  by (induction rs) auto

text \<open>
  Claim C1. In a table that satisfies the schema, after \<open>set(k, v)\<close> there is exactly
  one row with key \<open>k\<close>; its value is \<open>v\<close> and its \<open>updateTime\<close> is the clock reading of
  the call. After two calls \<open>set(k, v)\<close> at \<open>t1\<close> and then \<open>t2\<close> there is still exactly one
  such row, with value \<open>v\<close> and the \<open>updateTime\<close> of the second call, which is the later
  of the two when the clock did not run backwards.
\<close>

theorem set_upsert:
  assumes "valid s"
  shows "(\<exists>r. filter (\<lambda>x. key x = k) (rows (set_kvl k v t s)) = [r] \<and> val r = v \<and> updateTime r = t) \<and>
         (\<exists>r. filter (\<lambda>x. key x = k) (rows (set_kvl k v t2 (set_kvl k v t1 s))) = [r] \<and>
              val r = v \<and> updateTime r = t2 \<and> (t1 \<le> t2 \<longrightarrow> updateTime r = max t1 t2))"
proof -
  have "valid (set_kvl k v t1 s)" using assms by (rule valid_set_kvl)
  from set_kvl_one[OF this, of k v t2] set_kvl_one[OF assms, of k v t]
  show ?thesis by auto
qed

theorem set_upsert_witness:
  "valid store0 \<and> (200::int) \<le> 300 \<and>
   (\<exists>r. filter (\<lambda>x. key x = ''k'') (rows (set_kvl ''k'' ''y'' 300 (set_kvl ''k'' ''y'' 200 store0))) = [r] \<and>
        val r = ''y'' \<and> updateTime r = max 200 300)"
proof -
  have h: "valid store0" by (simp add: valid_def store0_def)
  from set_upsert[OF h, where k="''k''" and v="''y''" and ?t1.0=200 and ?t2.0=300 and t=200] h show ?thesis by auto
qed

text \<open>
  Claim C10. When the row of key \<open>k\<close> exists and \<open>tags(k)\<close> reads the labels \<open>l\<close>, it
  reads the same labels after \<open>set(k, v)\<close>.
\<close>

theorem set_keeps_labels:
  assumes "tags k None t0 s = Inr (l, s0)"
  shows "tags k None t1 (set_kvl k v t s) = Inr (l, set_kvl k v t s)"
proof -
  let ?f = "\<lambda>r. if key r = k then r\<lparr>val := v, updateTime := t\<rparr> else r"
  from assms obtain item where item: "find (\<lambda>r. key r = k) (rows s) = Some item"
    and l: "l = (case labels item of None \<Rightarrow> Null | Some x \<Rightarrow> Str x)"
    by (cases "find (\<lambda>r. key r = k) (rows s)") (simp_all add: tags_def)
  from item have "k \<in> set (map key (rows s))" by (rule find_Some_key)
  then have ins: "rows (insert_or_ignore t t k v s) = rows s" by (simp add: insert_or_ignore_def)
  have "rows (set_kvl k v t s) = map ?f (rows s)"
    by (simp add: set_kvl_def ins update_value_def)
  then have "find (\<lambda>r. key r = k) (rows (set_kvl k v t s)) = map_option ?f (find (\<lambda>r. key r = k) (rows s))"
    by (simp only: find_map_key[OF key_update])
  then have found: "find (\<lambda>r. key r = k) (rows (set_kvl k v t s)) = Some (?f item)"
    by (simp only: item option.map)
  have "labels (?f item) = labels item" by simp
  with found l show ?thesis by (simp add: tags_def)
qed

theorem set_keeps_labels_witness:
  "tags ''k'' None 0 store0 = Inr (Str ''red'', store0) \<and>
   tags ''k'' None 0 (set_kvl ''k'' ''new'' 500 store0) = Inr (Str ''red'', set_kvl ''k'' ''new'' 500 store0)"
proof -
  have h: "tags ''k'' None 0 store0 = Inr (Str ''red'', store0)"
    by (simp add: tags_def store0_def)
  from set_keeps_labels[OF h] h show ?thesis by blast
qed

subsection \<open>tags\<close>

lemma upd_labels_written:
  "r \<in> set (map (\<lambda>r. if key r = k then r\<lparr>labels := Some x, updateTime := t\<rparr> else r) rs) \<Longrightarrow> key r = k
   \<Longrightarrow> labels r = Some x \<and> updateTime r = t"
proof (induction rs)
  case Nil then show ?case by simp
next
  case (Cons a rs)
  show ?case
  proof (cases "r = (if key a = k then a\<lparr>labels := Some x, updateTime := t\<rparr> else a)")
    case True
    with Cons.prems(2) show ?thesis by (cases "key a = k") simp_all
  next
    case False
    with Cons show ?thesis by simp
  qed
qed

lemma rows_update_labels:
  "r \<in> set (rows (update_labels x t k s)) \<Longrightarrow> key r = k \<Longrightarrow> labels r = Some x \<and> updateTime r = t"
  by (rule upd_labels_written[where rs="rows s"]) (simp_all add: update_labels_def)

lemma find_update_labels:
  "k \<in> set (map key rs) \<Longrightarrow>
   \<exists>item. find (\<lambda>r. key r = k) (map (\<lambda>r. if key r = k then r\<lparr>labels := Some x, updateTime := t\<rparr> else r) rs) = Some item
      \<and> labels item = Some x \<and> updateTime item = t"
  by (induction rs) auto

text \<open>
  Claim C6. For a key that has a row, \<open>tags(k, x)\<close> succeeds, a following \<open>tags(k)\<close>
  returns \<open>x\<close> as it was written, and the row's \<open>updateTime\<close> is the clock reading of the
  write. For a key that has no row, the read and the write both throw the error
  \<open>item does not exist\<close>.
\<close>

theorem tags_round_trip:
  "(k \<in> set (map key (rows s)) \<longrightarrow>
      (\<exists>s'. tags k (Some x) t s = Inr (Undefined, s') \<and> tags k None t' s' = Inr (Str x, s') \<and>
            (\<forall>r \<in> set (rows s'). key r = k \<longrightarrow> labels r = Some x \<and> updateTime r = t))) \<and>
   (k \<notin> set (map key (rows s)) \<longrightarrow>
      tags k None t s = Inl ItemDoesNotExist \<and> tags k (Some x) t s = Inl ItemDoesNotExist)"
proof (intro conjI impI)
  assume k: "k \<in> set (map key (rows s))"
  then have "filter (\<lambda>r. key r = k) (rows s) \<noteq> []"
    by (auto simp: filter_empty_conv)
  then have w: "tags k (Some x) t s = Inr (Undefined, update_labels x t k s)"
    by (cases "filter (\<lambda>r. key r = k) (rows s)") (simp_all add: tags_def)
  from find_update_labels[OF k, where x=x and t=t]
  have r: "tags k None t' (update_labels x t k s) = Inr (Str x, update_labels x t k s)"
    by (auto simp: tags_def update_labels_def)
  have "\<forall>r \<in> set (rows (update_labels x t k s)). key r = k \<longrightarrow> labels r = Some x \<and> updateTime r = t"
    using rows_update_labels by blast
  with w r show "\<exists>s'. tags k (Some x) t s = Inr (Undefined, s') \<and> tags k None t' s' = Inr (Str x, s') \<and>
            (\<forall>r \<in> set (rows s'). key r = k \<longrightarrow> labels r = Some x \<and> updateTime r = t)"
    by blast
next
  assume k: "k \<notin> set (map key (rows s))"
  then show "tags k None t s = Inl ItemDoesNotExist"
    by (simp add: tags_def find_None_key[THEN iffD2])
next
  assume k: "k \<notin> set (map key (rows s))"
  then show "tags k (Some x) t s = Inl ItemDoesNotExist"
    by (simp add: tags_def filter_key_absent)
qed

theorem tags_round_trip_witness:
  "''k'' \<in> set (map key (rows store0)) \<and> ''zz'' \<notin> set (map key (rows store0)) \<and>
   (\<exists>s'. tags ''k'' (Some ''blue'') 900 store0 = Inr (Undefined, s') \<and> tags ''k'' None 901 s' = Inr (Str ''blue'', s') \<and>
         (\<forall>r \<in> set (rows s'). key r = ''k'' \<longrightarrow> labels r = Some ''blue'' \<and> updateTime r = 900)) \<and>
   tags ''zz'' None 900 store0 = Inl ItemDoesNotExist \<and> tags ''zz'' (Some ''blue'') 900 store0 = Inl ItemDoesNotExist"
proof -
  have h1: "''k'' \<in> set (map key (rows store0))" by (simp add: store0_def)
  have h2: "''zz'' \<notin> set (map key (rows store0))" by (simp add: store0_def)
  from tags_round_trip[where k="''k''" and s=store0 and x="''blue''" and t=900 and t'=901]
    tags_round_trip[where k="''zz''" and s=store0 and x="''blue''" and t=900 and t'=901] h1 h2
  show ?thesis by blast
qed

subsection \<open>expire\<close>

text \<open>
  Claim C7, as stated, fails for \<open>expireTimeMs = 0\<close>: the guard of \<open>expire\<close> returns
  before the \<open>DELETE\<close>, and a row whose \<open>updateTime\<close> is not after \<open>now - 0\<close> is still in
  the table.
\<close>

theorem expire_zero_counterexample:
  "expireTimeMs store_zero = Some 0 \<and>
   \<lparr>rowid = 1, key = ''q:u1'', val = ''a'', labels = None, createTime = 100, updateTime = 100\<rparr>
      \<in> set (rows store_zero) \<and>
   (100::int) \<le> 1000 - 0 \<and>
   \<lparr>rowid = 1, key = ''q:u1'', val = ''a'', labels = None, createTime = 100, updateTime = 100\<rparr>
      \<in> set (rows (expire 1000 store_zero))"
  by (simp add: expire_def store_zero_def store0_def)

text \<open>
  Claim C7, amended. With a non-zero \<open>expireTimeMs = e\<close>, \<open>expire\<close> keeps exactly the rows
  with \<open>now - e < updateTime\<close>, in their order: every row with \<open>updateTime \<le> now - e\<close> is
  gone and every more recent row stays. Without \<open>expireTimeMs\<close>, or with
  \<open>expireTimeMs = 0\<close>, \<open>expire\<close> changes nothing; so it is with a store constructed without
  it.
\<close>

theorem expire_correct:
  "(expireTimeMs s = Some e \<and> e \<noteq> 0 \<longrightarrow>
      rows (expire now s) = filter (\<lambda>r. now - e < updateTime r) (rows s) \<and>
      (\<forall>r \<in> set (rows s). updateTime r \<le> now - e \<longrightarrow> r \<notin> set (rows (expire now s))) \<and>
      (\<forall>r \<in> set (rows s). now - e < updateTime r \<longrightarrow> r \<in> set (rows (expire now s)))) \<and>
   (expireTimeMs s = None \<or> expireTimeMs s = Some 0 \<longrightarrow> expire now s = s) \<and>
   expire now (new_KVL rows0 seq0 None now0) = new_KVL rows0 seq0 None now0"
proof -
  have eq: "(\<lambda>r. \<not> updateTime r \<le> now - e) = (\<lambda>r. now - e < updateTime r)"
    by (simp add: fun_eq_iff not_le)
  have a: "expireTimeMs s = Some e \<Longrightarrow> e \<noteq> 0 \<Longrightarrow>
      rows (expire now s) = filter (\<lambda>r. now - e < updateTime r) (rows s)"
    by (simp add: expire_def eq)
  have b: "expireTimeMs s = None \<or> expireTimeMs s = Some 0 \<Longrightarrow> expire now s = s"
    by (cases "expireTimeMs s") (simp_all add: expire_def)
  have c: "expire now (new_KVL rows0 seq0 None now0) = new_KVL rows0 seq0 None now0"
    by (simp add: new_KVL_def expire_def)
  from a b c show ?thesis by simp
qed

theorem expire_correct_witness:
  "expireTimeMs store0 = Some 50 \<and> (50::int) \<noteq> 0 \<and>
   rows (expire 190 store0) = filter (\<lambda>r. 190 - 50 < updateTime r) (rows store0) \<and>
   rows (expire 190 store0) =
     [\<lparr>rowid = 2, key = ''k'', val = ''x'', labels = Some ''red'', createTime = 110, updateTime = 150\<rparr>] \<and>
   expireTimeMs store_zero = Some 0 \<and> expire 190 store_zero = store_zero"
proof -
  have h: "expireTimeMs store0 = Some 50 \<and> (50::int) \<noteq> 0" by (simp add: store0_def)
  have z: "expireTimeMs store_zero = Some 0" by (simp add: store_zero_def)
  have f: "filter (\<lambda>r. (190::int) - 50 < updateTime r) (rows store0) =
     [\<lparr>rowid = 2, key = ''k'', val = ''x'', labels = Some ''red'', createTime = 110, updateTime = 150\<rparr>]"
    by (simp add: store0_def)
  from expire_correct[where s=store0 and e=50 and now=190] h
  have "rows (expire 190 store0) = filter (\<lambda>r. 190 - 50 < updateTime r) (rows store0)" by blast
  moreover from expire_correct[where s=store_zero and now=190] z
  have "expire 190 store_zero = store_zero" by blast
  ultimately show ?thesis using h z f by simp
qed

subsection \<open>page\<close>

text \<open>
  Claim C4 says that \<open>page\<close> returns an object with \<open>items\<close>, \<open>total\<close>, \<open>pages\<close> and
  \<open>pageNum\<close>. The code at the call of \<open>main\<close> (no tags) runs to its end and returns
  \<open>undefined\<close>; with a tag it throws, since the tag values are never bound.
\<close>

theorem page_returns_nothing:
  "page ''q'' None None None None None None store0 = Inr Undefined \<and>
   page ''q'' (Some 1) (Some 10) (Some [''red'']) (Some AND) (Some CreateTime) (Some DESC) store0
     = Inl TooFewParameters"
  by (simp add: page_def page_body_def Let_def)

text \<open>
  Claim C5, as stated, fails for a requested page number below \<open>1\<close>: it is only clamped
  from above.
\<close>

theorem page_num_counterexample:
  "page_body ''q'' (Some 0) (Some 10) None None store0
     = Inr \<lparr>total = 2, pages = Fin 1, pageNum = 0\<rparr> \<and> \<not> (1::int) \<le> 0"
  by (simp add: page_body_def Let_def members_def sql_like_def cstr_def store0_def to_lower_def)

lemma pages_ceiling:
  fixes T P :: int
  assumes "0 < T" "0 < P"
  shows "(T - 1) div P + 1 = \<lceil>real_of_int T / real_of_int P\<rceil>"
proof -
  define q where "q = T div P"
  define r where "r = T mod P"
  have T: "T = P * q + r" by (simp add: q_def r_def)
  have r: "0 \<le> r" "r < P" using assms by (simp_all add: r_def)
  have c: "\<lceil>real_of_int T / real_of_int P\<rceil> = - (- T div P)"
    by (rule ceiling_divide_eq_div)
  have P0: "P \<noteq> 0" using assms by simp
  show ?thesis
  proof (cases "r = 0")
    case True
    have "T - 1 = P * (q - 1) + (P - 1)" using T True by (simp add: algebra_simps)
    then have "(T - 1) div P = q - 1"
      by (rule int_div_pos_eq) (use assms in simp_all)
    moreover have "- T div P = - q"
      using True by (simp add: zdiv_zminus1_eq_if[OF P0] q_def r_def)
    ultimately show ?thesis using c by simp
  next
    case False
    have "T - 1 = P * q + (r - 1)" using T by simp
    then have "(T - 1) div P = q"
      by (rule int_div_pos_eq) (use r False in simp_all)
    moreover have "- T div P = - q - 1"
      using False by (simp add: zdiv_zminus1_eq_if[OF P0] q_def r_def)
    ultimately show ?thesis using c by simp
  qed
qed

lemma members_empty_tags:
  "tgs = None \<or> tgs = Some [] \<Longrightarrow> (case tgs of None \<Rightarrow> False | Some ts \<Rightarrow> ts \<noteq> []) = False"
  by (cases tgs) auto

text \<open>
  Claim C5, amended. Without tags and with a page size \<open>P \<ge> 1\<close>, the body of \<open>page\<close>
  computes \<open>total = T\<close>, the number of members of the list, and the page count
  \<open>\<lceil>T / P\<rceil>\<close> when \<open>T > 0\<close> and \<open>1\<close> when \<open>T = 0\<close>; the effective page number is the
  smaller of the requested one and the page count, so it is never above the page count,
  and it is at least \<open>1\<close> when the requested one is.
\<close>

theorem page_count:
  assumes "tgs = None \<or> tgs = Some []"
    and "P = (case ps of None \<Rightarrow> 10 | Some n \<Rightarrow> n)"
    and "N = (case pn of None \<Rightarrow> 1 | Some n \<Rightarrow> n)"
    and "T = int (length (members name s))"
    and "0 < P"
  shows "\<exists>p. page_body name pn ps tgs opr s = Inr \<lparr>total = T, pages = Fin p, pageNum = min N p\<rparr> \<and>
             (0 < T \<longrightarrow> p = \<lceil>real_of_int T / real_of_int P\<rceil>) \<and>
             (T = 0 \<longrightarrow> p = 1) \<and>
             min N p \<le> p \<and>
             (1 \<le> N \<longrightarrow> 1 \<le> min N p)"
proof -
  define p where "p = (if 0 < T then T - 1 else 0) div P + 1"
  have T0: "0 \<le> T" using assms(4) by simp
  have nt: "(case tgs of None \<Rightarrow> False | Some ts \<Rightarrow> ts \<noteq> []) = False"
    using assms(1) by (rule members_empty_tags)
  have body: "page_body name pn ps tgs opr s = Inr \<lparr>total = T, pages = Fin p, pageNum = min N p\<rparr>"
    using assms(5) unfolding page_body_def Let_def nt assms(2)[symmetric] assms(3)[symmetric] assms(4)[symmetric] p_def
    by (simp add: min_def)
  have pos: "0 < T \<Longrightarrow> p = \<lceil>real_of_int T / real_of_int P\<rceil>"
    using pages_ceiling[of T P] assms(5) by (simp add: p_def)
  have zero: "T = 0 \<Longrightarrow> p = 1" by (simp add: p_def)
  have "1 \<le> p"
  proof (cases "0 < T")
    case True
    then have "0 \<le> (T - 1) div P" using assms(5) by (simp add: pos_imp_zdiv_nonneg_iff)
    with True show ?thesis by (simp add: p_def)
  next
    case False
    with T0 have "T = 0" by simp
    with zero show ?thesis by simp
  qed
  then have "1 \<le> N \<longrightarrow> 1 \<le> min N p" by simp
  with body pos zero show ?thesis by auto
qed

theorem page_count_witness:
  "((None::string list option) = None \<or> (None::string list option) = Some []) \<and>
   (0::int) < 1 \<and> (1::int) \<le> 5 \<and> (0::int) < 2 \<and>
   (\<exists>p. page_body ''q'' (Some 5) (Some 1) None None store0
           = Inr \<lparr>total = 2, pages = Fin p, pageNum = min 5 p\<rparr> \<and>
        p = \<lceil>real_of_int 2 / real_of_int 1\<rceil> \<and> min 5 p \<le> p \<and> 1 \<le> min 5 p) \<and>
   (\<exists>p. page_body ''q'' None None (Some []) None empty_store
           = Inr \<lparr>total = 0, pages = Fin p, pageNum = min 1 p\<rparr> \<and> p = 1)"
proof -
  have m: "(2::int) = int (length (members ''q'' store0))"
    by (simp add: members_def sql_like_def cstr_def store0_def to_lower_def)
  have e: "(0::int) = int (length (members ''q'' empty_store))"
    by (simp add: members_def empty_store_def)
  from page_count[where tgs=None and ps="Some 1" and pn="Some 5" and P=1 and N=5 and T=2
      and name="''q''" and s=store0 and opr=None, OF _ _ _ m]
  have a: "\<exists>p. page_body ''q'' (Some 5) (Some 1) None None store0
           = Inr \<lparr>total = 2, pages = Fin p, pageNum = min 5 p\<rparr> \<and>
        p = \<lceil>real_of_int 2 / real_of_int 1\<rceil> \<and> min 5 p \<le> p \<and> 1 \<le> min 5 p"
    by simp
  from page_count[where tgs="Some []" and ps=None and pn=None and P=10 and N=1 and T=0
      and name="''q''" and s=empty_store and opr=None, OF _ _ _ e]
  have b: "\<exists>p. page_body ''q'' None None (Some []) None empty_store
           = Inr \<lparr>total = 0, pages = Fin p, pageNum = min 1 p\<rparr> \<and> p = 1"
    by simp
  from a b show ?thesis by simp
qed

subsection \<open>Lists and their names\<close>

lemma filter_key_map:
  assumes "\<And>r. P (key r) \<Longrightarrow> f r = r" and "\<And>r. key (f r) = key r"
  shows "filter (\<lambda>r. P (key r)) (map f rs) = filter (\<lambda>r. P (key r)) rs"
proof (induction rs)
  case Nil show ?case by simp
next
  case (Cons a rs)
  show ?case
  proof (cases "P (key a)")
    case True
    then have "f a = a" by (rule assms(1))
    with True Cons show ?thesis by simp
  next
    case False
    then have "\<not> P (key (f a))" by (simp add: assms(2))
    with False Cons show ?thesis by simp
  qed
qed

lemma members_set_kvl_other:
  assumes "\<not> sql_like (b @ '':%'') k"
  shows "members b (set_kvl k v t s) = members b s"
proof -
  let ?f = "\<lambda>r. if key r = k then r\<lparr>val := v, updateTime := t\<rparr> else r"
  have f1: "\<And>r. sql_like (b @ '':%'') (key r) \<Longrightarrow> ?f r = r" using assms by auto
  have f2: "\<And>r. key (?f r) = key r" by simp
  have upd: "\<And>rs. filter (\<lambda>r. sql_like (b @ '':%'') (key r)) (map ?f rs) = filter (\<lambda>r. sql_like (b @ '':%'') (key r)) rs"
    by (rule filter_key_map[where P="sql_like (b @ '':%'')", OF f1 f2])
  have ins: "filter (\<lambda>r. sql_like (b @ '':%'') (key r)) (rows (insert_or_ignore t t k v s))
     = filter (\<lambda>r. sql_like (b @ '':%'') (key r)) (rows s)"
    using assms by (simp add: insert_or_ignore_def)
  have r: "rows (set_kvl k v t s) = map ?f (rows (insert_or_ignore t t k v s))"
    by (simp add: set_kvl_def update_value_def)
  show ?thesis unfolding members_def r upd ins ..
qed


lemma all_kvl_members: "members b s = members b s' \<Longrightarrow> all_kvl b s = all_kvl b s'"
  by (simp add: all_kvl_def)

lemma pop_members: "members b s = members b s' \<Longrightarrow> fst (pop b s) = fst (pop b s')"
  by (simp add: pop_def split: list.splits)

lemma shift_members: "members b s = members b s' \<Longrightarrow> fst (shift b s) = fst (shift b s')"
  by (simp add: shift_def split: list.splits)

lemma distinct_rowid: "valid s \<Longrightarrow> distinct (map rowid (rows s))"
  by (simp add: valid_def strict_sorted_iff)

lemma rowid_inj:
  "valid s \<Longrightarrow> x \<in> set (rows s) \<Longrightarrow> y \<in> set (rows s) \<Longrightarrow> rowid x = rowid y \<Longrightarrow> x = y"
  using distinct_rowid[of s] by (auto simp: distinct_map inj_on_def)

lemma survives_delete:
  assumes "valid s" "r \<in> set (rows s)" "m \<in> set (rows s)" "m \<noteq> r"
  shows "r \<in> set (rows (delete_by_id (rowid m) s))"
proof -
  have "rowid r \<noteq> rowid m" using rowid_inj[OF assms(1) assms(2) assms(3)] assms(4) by blast
  with assms(2) show ?thesis by (simp add: delete_by_id_def)
qed

lemma survives_pop:
  assumes "valid s" "r \<in> set (rows s)" "r \<notin> set (members b s)"
  shows "r \<in> set (rows (snd (pop b s)))"
proof (cases "rev (sort_key rowid (members b s))")
  case Nil
  with assms(2) show ?thesis by (simp add: pop_def)
next
  case (Cons m ms)
  then have "m \<in> set (rev (sort_key rowid (members b s)))" by simp
  then have mm: "m \<in> set (members b s)" by simp
  then have "m \<in> set (rows s)" by (simp add: members_def)
  moreover from mm assms(3) have "m \<noteq> r" by blast
  ultimately have "r \<in> set (rows (delete_by_id (rowid m) s))"
    using assms(1,2) by (simp add: survives_delete)
  with Cons assms(2) show ?thesis by (simp add: pop_def)
qed

lemma survives_shift:
  assumes "valid s" "r \<in> set (rows s)" "r \<notin> set (members b s)"
  shows "r \<in> set (rows (snd (shift b s)))"
proof (cases "sort_key rowid (members b s)")
  case Nil
  with assms(2) show ?thesis by (simp add: shift_def)
next
  case (Cons m ms)
  then have "m \<in> set (sort_key rowid (members b s))" by simp
  then have mm: "m \<in> set (members b s)" by simp
  then have "m \<in> set (rows s)" by (simp add: members_def)
  moreover from mm assms(3) have "m \<noteq> r" by blast
  ultimately have "r \<in> set (rows (delete_by_id (rowid m) s))"
    using assms(1,2) by (simp add: survives_delete)
  with Cons assms(2) show ?thesis by (simp add: shift_def)
qed

lemma get_unique:
  assumes "valid s" "r \<in> set (rows s)"
  shows "get (key r) s = Str (val r)"
proof -
  from assms(1) have d: "distinct (map key (rows s))" by (simp add: valid_def)
  have f: "filter (\<lambda>x. key x = key r) (rows s) = [r]" using d assms(2) by (rule filter_key_distinct)
  obtain item where item: "find (\<lambda>x. key x = key r) (rows s) = Some item"
    using assms(2) by (cases "find (\<lambda>x. key x = key r) (rows s)") (auto simp: find_None_iff)
  then have "item \<in> set (filter (\<lambda>x. key x = key r) (rows s))"
    by (auto simp: find_Some_iff)
  with f have "item = r" by simp
  with item show ?thesis by (simp add: get_def)
qed


lemma all_kvl_keys: "x \<in> set (all_kvl b s) \<Longrightarrow> sql_like (b @ '':%'') (fst (snd (snd x)))"
  by (auto simp: all_kvl_def members_def)

text \<open>
  Claim C8, as stated, fails. A value pushed to list \<open>a:b\<close> is a member of list \<open>a\<close>: it
  is in \<open>all('a')\<close> and it is what \<open>pop('a')\<close> and \<open>shift('a')\<close> return. A value pushed to
  list \<open>Q\<close> is in \<open>all('q')\<close>, a value pushed to list \<open>q\<close> is in \<open>all('_')\<close>, and a value
  pushed to the list named \<open>a\<close>, NUL, \<open>b\<close> is in the list named \<open>a\<close>, NUL, \<open>c\<close>.
\<close>

theorem prefix_counterexample:
  "''a:b'' \<noteq> ''a'' \<and>
   fst (push ''a:b'' ''v'' ''u'' 5 empty_store) = ''a:b:u'' \<and>
   all_kvl ''a'' (snd (push ''a:b'' ''v'' ''u'' 5 empty_store)) = [(5, 5, ''a:b:u'', ''v'')] \<and>
   fst (pop ''a'' (snd (push ''a:b'' ''v'' ''u'' 5 empty_store))) = Str ''v'' \<and>
   fst (shift ''a'' (snd (push ''a:b'' ''v'' ''u'' 5 empty_store))) = Str ''v'' \<and>
   ''Q'' \<noteq> ''q'' \<and>
   all_kvl ''q'' (snd (push ''Q'' ''v'' ''u'' 5 empty_store)) = [(5, 5, ''Q:u'', ''v'')] \<and>
   ''q'' \<noteq> ''_'' \<and>
   all_kvl ''_'' (snd (push ''q'' ''v'' ''u'' 5 empty_store)) = [(5, 5, ''q:u'', ''v'')] \<and>
   [CHR ''a'', CHR 0x00, CHR ''b''] \<noteq> [CHR ''a'', CHR 0x00, CHR ''c''] \<and>
   all_kvl [CHR ''a'', CHR 0x00, CHR ''c'']
     (snd (push [CHR ''a'', CHR 0x00, CHR ''b''] ''v'' ''u'' 5 empty_store))
     = [(5, 5, [CHR ''a'', CHR 0x00, CHR ''b'', CHR '':'', CHR ''u''], ''v'')]"
  by (simp add: push_def Let_def set_kvl_def insert_or_ignore_def update_value_def empty_store_def
        all_kvl_def pop_def shift_def members_def sql_like_def cstr_def to_lower_def)

text \<open>
  Claim C8, amended. Let \<open>b\<close> be a name without NUL, \<open>%\<close> and \<open>_\<close>, and \<open>a\<close> a name such
  that \<open>b:\<close> is not a prefix of \<open>a:\<close> when the case of ASCII letters is ignored; the token
  that \<open>push\<close> draws contains no \<open>:\<close> (it is a UUID). Pushing a value to \<open>a\<close> does not
  change the members of \<open>b\<close>, nor what \<open>all(b)\<close>, \<open>pop(b)\<close> and \<open>shift(b)\<close> return; the
  pushed key is not among the keys of \<open>all(b)\<close>, and the pushed record is still there,
  with its value, after \<open>pop(b)\<close> and after \<open>shift(b)\<close>. Every row whose key starts with
  \<open>name:\<close> is a member of list \<open>name\<close>.
\<close>

theorem prefix_isolation:
  assumes "valid s"
    and "CHR 0x00 \<notin> set b" and "CHR ''%'' \<notin> set b" and "CHR ''_'' \<notin> set b"
    and "CHR '':'' \<notin> set uuid"
    and "map to_lower (take (Suc (length b)) (a @ '':'')) \<noteq> map to_lower (b @ '':'')"
    and "push a v uuid t s = (k, s')"
  shows "members b s' = members b s \<and>
         all_kvl b s' = all_kvl b s \<and>
         fst (pop b s') = fst (pop b s) \<and>
         fst (shift b s') = fst (shift b s) \<and>
         (\<forall>x \<in> set (all_kvl b s'). fst (snd (snd x)) \<noteq> k) \<and>
         get k (snd (pop b s')) = Str v \<and>
         get k (snd (shift b s')) = Str v \<and>
         (\<forall>r \<in> set (rows s'). \<forall>name rest. key r = name @ '':'' @ rest \<longrightarrow> r \<in> set (members name s'))"
proof -
  from assms(7) have k: "k = a @ '':'' @ uuid" and s': "s' = set_kvl k v t s"
    by (auto simp: push_def Let_def)
  have nl: "\<not> sql_like (b @ '':%'') k"
    unfolding k using assms(2,3,4,5,6) by (rule not_member_key)
  have m: "members b s' = members b s" unfolding s' using nl by (rule members_set_kvl_other)
  have v': "valid s'" unfolding s' using assms(1) by (rule valid_set_kvl)
  from key_in_set_kvl[of k v t s] obtain r where r: "r \<in> set (rows s')" and kr: "key r = k"
    unfolding s' by blast
  have vr: "val r = v" using set_kvl_written[of r k v t s] r kr unfolding s' by simp
  have nm: "r \<notin> set (members b s')" using nl kr by (simp add: members_def)
  have "get (key r) (snd (pop b s')) = Str (val r)"
    by (rule get_unique[OF valid_pop[OF v'] survives_pop[OF v' r nm]])
  then have gp: "get k (snd (pop b s')) = Str v" by (simp add: kr vr)
  have "get (key r) (snd (shift b s')) = Str (val r)"
    by (rule get_unique[OF valid_shift[OF v'] survives_shift[OF v' r nm]])
  then have gs: "get k (snd (shift b s')) = Str v" by (simp add: kr vr)
  have ak: "\<forall>x \<in> set (all_kvl b s'). fst (snd (snd x)) \<noteq> k"
    using all_kvl_keys[of _ b s'] nl by blast
  have ch: "\<forall>r \<in> set (rows s'). \<forall>name rest. key r = name @ '':'' @ rest \<longrightarrow> r \<in> set (members name s')"
    using sql_like_own_key by (simp add: members_def)
  from m all_kvl_members[OF m] pop_members[OF m] shift_members[OF m] ak gp gs ch
  show ?thesis by blast
qed

theorem prefix_isolation_witness:
  "valid store0 \<and> CHR 0x00 \<notin> set ''q'' \<and> CHR ''%'' \<notin> set ''q'' \<and> CHR ''_'' \<notin> set ''q'' \<and>
   CHR '':'' \<notin> set ''u9'' \<and>
   map to_lower (take (Suc (length ''q'')) (''p'' @ '':'')) \<noteq> map to_lower (''q'' @ '':'') \<and>
   (100, 100, ''q:u1'', ''a'') \<in> set (all_kvl ''q'' (snd (push ''p'' ''z'' ''u9'' 500 store0))) \<and>
   ''q:u1'' \<noteq> fst (push ''p'' ''z'' ''u9'' 500 store0) \<and>
   all_kvl ''q'' (snd (push ''p'' ''z'' ''u9'' 500 store0)) = all_kvl ''q'' store0 \<and>
   fst (pop ''q'' (snd (push ''p'' ''z'' ''u9'' 500 store0))) = fst (pop ''q'' store0) \<and>
   fst (shift ''q'' (snd (push ''p'' ''z'' ''u9'' 500 store0))) = fst (shift ''q'' store0) \<and>
   get (fst (push ''p'' ''z'' ''u9'' 500 store0)) (snd (pop ''q'' (snd (push ''p'' ''z'' ''u9'' 500 store0))))
     = Str ''z'' \<and>
   \<lparr>rowid = 5, key = ''p:u9'', val = ''z'', labels = None, createTime = 500, updateTime = 500\<rparr>
     \<in> set (rows (snd (push ''p'' ''z'' ''u9'' 500 store0))) \<and>
   \<lparr>rowid = 5, key = ''p:u9'', val = ''z'', labels = None, createTime = 500, updateTime = 500\<rparr>
     \<in> set (members ''p'' (snd (push ''p'' ''z'' ''u9'' 500 store0)))"
proof -
  let ?s' = "snd (push ''p'' ''z'' ''u9'' 500 store0)"
  let ?new = "\<lparr>rowid = 5, key = ''p:u9'', val = ''z'', labels = None, createTime = 500, updateTime = 500\<rparr>"
  have h1: "valid store0" by (simp add: valid_def store0_def)
  have h2: "CHR 0x00 \<notin> set ''q''" "CHR ''%'' \<notin> set ''q''" "CHR ''_'' \<notin> set ''q''"
    "CHR '':'' \<notin> set ''u9''" by simp_all
  have h3: "map to_lower (take (Suc (length ''q'')) (''p'' @ '':'')) \<noteq> map to_lower (''q'' @ '':'')"
    by (simp add: to_lower_def)
  have h4: "push ''p'' ''z'' ''u9'' 500 store0 = (fst (push ''p'' ''z'' ''u9'' 500 store0), ?s')"
    by simp
  have h5: "all_kvl ''q'' store0 = [(120, 120, ''q:u2'', ''b''), (100, 100, ''q:u1'', ''a'')]"
    by (simp add: all_kvl_def members_def sql_like_def cstr_def store0_def to_lower_def)
  have h6: "?new \<in> set (rows ?s')"
    by (simp add: push_def Let_def set_kvl_def insert_or_ignore_def update_value_def store0_def)
  have h7: "key ?new = ''p'' @ '':'' @ ''u9''" by simp
  note t = prefix_isolation[OF h1 h2 h3 h4]
  from t have a: "all_kvl ''q'' ?s' = all_kvl ''q'' store0" by blast
  then have i: "(100, 100, ''q:u1'', ''a'') \<in> set (all_kvl ''q'' ?s')" by (simp add: h5)
  with t have "fst (snd (snd (100::int, 100::int, ''q:u1'', ''a''))) \<noteq> fst (push ''p'' ''z'' ''u9'' 500 store0)"
    by blast
  then have n: "''q:u1'' \<noteq> fst (push ''p'' ''z'' ''u9'' 500 store0)" by simp
  from t h6 h7 have mem: "?new \<in> set (members ''p'' ?s')" by blast
  from t h1 h2 h3 a i n h6 mem show ?thesis by blast
qed

subsection \<open>Rows over time\<close>

lemma carried_refl: "carried s s"
  unfolding carried_def by blast

lemma carried_trans:
  assumes "carried s s1" "carried s1 s2"
  shows "carried s s2"
  unfolding carried_def
proof (intro conjI ballI)
  show "seq s \<le> seq s2" using assms unfolding carried_def by linarith
next
  fix r2 assume r2: "r2 \<in> set (rows s2)"
  from assms(2) r2 consider "seq s1 < rowid r2"
    | r1 where "r1 \<in> set (rows s1)" "rowid r1 = rowid r2" "key r1 = key r2" "createTime r1 = createTime r2"
    unfolding carried_def by blast
  then show "seq s < rowid r2 \<or>
      (\<exists>r \<in> set (rows s). rowid r = rowid r2 \<and> key r = key r2 \<and> createTime r = createTime r2)"
  proof cases
    case 1
    with assms(1) show ?thesis unfolding carried_def by linarith
  next
    case 2
    from assms(1) 2(1) consider "seq s < rowid r1"
      | r where "r \<in> set (rows s)" "rowid r = rowid r1" "key r = key r1" "createTime r = createTime r1"
      unfolding carried_def by blast
    then show ?thesis
    proof cases
      case 1
      with 2(2) show ?thesis by simp
    next
      case 2
      note a = this
      from a \<open>rowid r1 = rowid r2\<close> \<open>key r1 = key r2\<close> \<open>createTime r1 = createTime r2\<close>
      show ?thesis by metis
    qed
  qed
qed

lemma carried_subset:
  assumes "set (rows s') \<subseteq> set (rows s)" "seq s' = seq s"
  shows "carried s s'"
  unfolding carried_def using assms by auto

lemma carried_map:
  assumes "rows s' = map f (rows s)" "seq s' = seq s"
    and "\<And>r. rowid (f r) = rowid r" "\<And>r. key (f r) = key r" "\<And>r. createTime (f r) = createTime r"
  shows "carried s s'"
  unfolding carried_def
proof (intro conjI ballI)
  show "seq s \<le> seq s'" using assms(2) by simp
next
  fix r' assume "r' \<in> set (rows s')"
  then obtain r where r: "r \<in> set (rows s)" "r' = f r" unfolding assms(1) by auto
  then have "rowid r = rowid r' \<and> key r = key r' \<and> createTime r = createTime r'"
    by (simp add: assms(3,4,5))
  with r(1) show "seq s < rowid r' \<or>
      (\<exists>r \<in> set (rows s). rowid r = rowid r' \<and> key r = key r' \<and> createTime r = createTime r')"
    by blast
qed

lemma carried_insert: "carried s (insert_or_ignore ct ut k v s)"
proof (cases "k \<in> set (map key (rows s))")
  case True
  then have "rows (insert_or_ignore ct ut k v s) = rows s"
    and "seq (insert_or_ignore ct ut k v s) = Suc (seq s)"
    by (simp_all add: insert_or_ignore_def)
  then show ?thesis unfolding carried_def by auto
next
  case False
  then have r: "rows (insert_or_ignore ct ut k v s) = rows s @
        [\<lparr>rowid = Suc (seq s), key = k, val = v, labels = None, createTime = ct, updateTime = ut\<rparr>]"
    and q: "seq (insert_or_ignore ct ut k v s) = Suc (seq s)"
    by (simp_all add: insert_or_ignore_def)
  show ?thesis unfolding carried_def r q by auto
qed

lemma carried_update_value: "carried s (update_value v t k s)"
  by (rule carried_map[where f="\<lambda>r. if key r = k then r\<lparr>val := v, updateTime := t\<rparr> else r"])
     (simp_all add: update_value_def)

lemma carried_update_labels: "carried s (update_labels l t k s)"
  by (rule carried_map[where f="\<lambda>r. if key r = k then r\<lparr>labels := Some l, updateTime := t\<rparr> else r"])
     (simp_all add: update_labels_def)

lemma carried_set_kvl: "carried s (set_kvl k v t s)"
  unfolding set_kvl_def by (rule carried_trans[OF carried_insert carried_update_value])

lemma carried_delete: "carried s (delete_by_id i s)"
  by (rule carried_subset) (simp_all add: delete_by_id_def)

lemma carried_pop: "carried s (snd (pop name s))"
  by (cases "rev (sort_key rowid (members name s))")
     (simp_all add: pop_def carried_refl carried_delete)

lemma carried_shift: "carried s (snd (shift name s))"
  by (cases "sort_key rowid (members name s)")
     (simp_all add: shift_def carried_refl carried_delete)

lemma carried_expire: "carried s (expire now s)"
  by (rule carried_subset) (simp_all add: expire_def split: option.splits)

lemma carried_tags: "tags k tgs t s = Inr (x, s') \<Longrightarrow> carried s s'"
  by (cases tgs) (auto simp: tags_def carried_refl carried_update_labels split: option.splits if_splits)

lemma carried_exec: "carried s (exec c t s)"
proof (cases c)
  case (Tags k tgs)
  then show ?thesis using carried_tags[of k tgs t s]
    by (cases "tags k tgs t s") (auto simp: carried_refl)
qed (simp_all add: carried_refl carried_set_kvl push_def Let_def carried_pop carried_shift carried_expire)

lemma carried_run: "carried s (run cs s)"
proof (induction cs arbitrary: s)
  case Nil
  show ?case by (simp add: carried_refl)
next
  case (Cons a cs)
  obtain c t where a: "a = (c, t)" by (cases a)
  show ?case unfolding a using carried_trans[OF carried_exec Cons] by simp
qed


lemma find_append_Some: "find P xs = Some r \<Longrightarrow> find P (xs @ ys) = Some r"
  by (induction xs) (auto split: if_splits)

lemma find_set_kvl:
  assumes "find (\<lambda>x. key x = k) (rows s) = Some r"
  shows "find (\<lambda>x. key x = k) (rows (set_kvl k2 v t s))
           = Some (if key r = k2 then r\<lparr>val := v, updateTime := t\<rparr> else r)"
proof -
  let ?f = "\<lambda>r. if key r = k2 then r\<lparr>val := v, updateTime := t\<rparr> else r"
  have "find (\<lambda>x. key x = k) (rows (insert_or_ignore t t k2 v s)) = Some r"
    using assms by (simp add: insert_or_ignore_def find_append_Some)
  moreover have "rows (set_kvl k2 v t s) = map ?f (rows (insert_or_ignore t t k2 v s))"
    by (simp add: set_kvl_def update_value_def)
  ultimately show ?thesis by (simp only: find_map_key[OF key_update] option.map)
qed

lemma find_update_labels_other:
  assumes "find (\<lambda>x. key x = k) (rows s) = Some r"
  shows "find (\<lambda>x. key x = k) (rows (update_labels l t k2 s))
           = Some (if key r = k2 then r\<lparr>labels := Some l, updateTime := t\<rparr> else r)"
proof -
  let ?g = "\<lambda>r. if key r = k2 then r\<lparr>labels := Some l, updateTime := t\<rparr> else r"
  have "rows (update_labels l t k2 s) = map ?g (rows s)" by (simp add: update_labels_def)
  then show ?thesis using assms by (simp only: find_map_key[OF key_update_labels] option.map)
qed

lemma set_keeps_createTime:
  assumes "find (\<lambda>x. key x = k) (rows s) = Some r"
  shows "\<exists>r'. find (\<lambda>x. key x = k) (rows (set_kvl k2 v t s)) = Some r' \<and>
              createTime r' = createTime r \<and> rowid r' = rowid r"
  unfolding find_set_kvl[OF assms] by simp

lemma tags_keeps_createTime:
  assumes "find (\<lambda>x. key x = k) (rows s) = Some r" and "tags k2 tgs t s = Inr (x, s')"
  shows "\<exists>r'. find (\<lambda>x. key x = k) (rows s') = Some r' \<and>
              createTime r' = createTime r \<and> rowid r' = rowid r"
proof (cases tgs)
  case None
  with assms(2) have "s' = s" by (cases "find (\<lambda>r. key r = k2) (rows s)") (simp_all add: tags_def)
  with assms(1) show ?thesis by simp
next
  case (Some l)
  with assms(2) have "s' = update_labels l t k2 s"
    by (cases "length (filter (\<lambda>r. key r = k2) (rows s)) < 1") (simp_all add: tags_def Let_def)
  then show ?thesis by (simp add: find_update_labels_other[OF assms(1)])
qed

lemma find_in_sub:
  assumes "distinct (map key xs)" and "find (\<lambda>x. key x = k) xs = Some r"
    and "set ys \<subseteq> set xs" and "find (\<lambda>x. key x = k) ys = Some r'"
  shows "r' = r"
proof -
  from assms(2) have r: "r \<in> set xs" "key r = k" by (auto simp: find_Some_iff)
  from assms(4) have "r' \<in> set ys" "key r' = k" by (auto simp: find_Some_iff)
  with assms(3) have r': "r' \<in> set xs" "key r' = k" by auto
  from assms(1) have "inj_on key (set xs)" by (simp add: distinct_map)
  with r r' show ?thesis by (simp add: inj_on_def)
qed

lemma rows_delete_subset: "set (rows (delete_by_id i s)) \<subseteq> set (rows s)"
  by (simp add: delete_by_id_def)

lemma rows_pop_subset: "set (rows (snd (pop name s))) \<subseteq> set (rows s)"
  by (cases "rev (sort_key rowid (members name s))") (simp_all add: pop_def rows_delete_subset)

lemma rows_shift_subset: "set (rows (snd (shift name s))) \<subseteq> set (rows s)"
  by (cases "sort_key rowid (members name s)") (simp_all add: shift_def rows_delete_subset)

lemma rows_expire_subset: "set (rows (expire now s)) \<subseteq> set (rows s)"
  by (simp add: expire_def split: option.splits)

lemma exec_keeps_createTime:
  assumes "valid s" and "find (\<lambda>x. key x = k) (rows s) = Some r"
    and "find (\<lambda>x. key x = k) (rows (exec c t s)) = Some r'"
  shows "createTime r' = createTime r \<and> rowid r' = rowid r"
proof -
  from assms(1) have d: "distinct (map key (rows s))" by (simp add: valid_def)
  show ?thesis
  proof (cases c)
    case (Set k2 v)
    with set_keeps_createTime[OF assms(2), of k2 v t] assms(3) show ?thesis by auto
  next
    case (Push name v uuid)
    with set_keeps_createTime[OF assms(2), of "name @ '':'' @ uuid" v t] assms(3)
    show ?thesis by (auto simp: push_def Let_def)
  next
    case (Pop name)
    with find_in_sub[OF d assms(2) rows_pop_subset[of name s]] assms(3) show ?thesis by simp
  next
    case (Shift name)
    with find_in_sub[OF d assms(2) rows_shift_subset[of name s]] assms(3) show ?thesis by simp
  next
    case Expire
    with find_in_sub[OF d assms(2) rows_expire_subset[of t s]] assms(3) show ?thesis by simp
  next
    case (Tags k2 tgs)
    show ?thesis
    proof (cases "tags k2 tgs t s")
      case (Inl e)
      with Tags assms(2,3) show ?thesis by simp
    next
      case (Inr p)
      obtain x s' where p: "p = (x, s')" by (cases p)
      from tags_keeps_createTime[OF assms(2), of k2 tgs t x s'] Inr p Tags assms(3)
      show ?thesis by auto
    qed
  next
    case (Get k2)
    with assms(2,3) show ?thesis by simp
  next
    case (All name)
    with assms(2,3) show ?thesis by simp
  next
    case (Page name pn ps tgs opr)
    with assms(2,3) show ?thesis by simp
  qed
qed

lemma run_keeps_createTime:
  assumes "valid s" and "r \<in> set (rows s)" and "r' \<in> set (rows (run cs s))"
    and "rowid r' = rowid r"
  shows "createTime r' = createTime r \<and> key r' = key r"
proof -
  from assms(1,2) have le: "rowid r \<le> seq s" by (simp add: valid_def list_all_iff)
  from carried_run[of s cs] assms(3) consider "seq s < rowid r'"
    | r0 where "r0 \<in> set (rows s)" "rowid r0 = rowid r'" "key r0 = key r'" "createTime r0 = createTime r'"
    unfolding carried_def by blast
  then show ?thesis
  proof cases
    case 1
    with le assms(4) show ?thesis by simp
  next
    case 2
    from 2(2) assms(4) have "rowid r0 = rowid r" by simp
    with assms(1) 2(1) assms(2) have "r0 = r" by (rule rowid_inj)
    with 2(3,4) show ?thesis by simp
  qed
qed

text \<open>
  Claim C9. A key that has a row still has one after \<open>set\<close> (on this or on any other
  key) and after \<open>tags\<close> (a read or a write, on this or on any other key), with the same
  \<open>createTime\<close> and the same rowid; after any one method call, the row of the key, if
  the key still has one, has the same \<open>createTime\<close> and rowid. Over any sequence of
  method calls on a table that satisfies the schema, a row with the same rowid has the
  same \<open>createTime\<close> and the same key.
\<close>

theorem createTime_fixed:
  "(find (\<lambda>x. key x = k) (rows s) = Some r \<longrightarrow>
      (\<exists>r'. find (\<lambda>x. key x = k) (rows (set_kvl k2 v t s)) = Some r' \<and>
            createTime r' = createTime r \<and> rowid r' = rowid r) \<and>
      (tags k2 tgs t s = Inr (x, s') \<longrightarrow>
         (\<exists>r'. find (\<lambda>x. key x = k) (rows s') = Some r' \<and>
               createTime r' = createTime r \<and> rowid r' = rowid r)) \<and>
      (valid s \<and> find (\<lambda>x. key x = k) (rows (exec c t s)) = Some r1 \<longrightarrow>
         createTime r1 = createTime r \<and> rowid r1 = rowid r)) \<and>
   (valid s \<and> r0 \<in> set (rows s) \<and> r2 \<in> set (rows (run cs s)) \<and> rowid r2 = rowid r0 \<longrightarrow>
      createTime r2 = createTime r0 \<and> key r2 = key r0)"
proof (intro conjI impI)
  assume "find (\<lambda>x. key x = k) (rows s) = Some r"
  then show "\<exists>r'. find (\<lambda>x. key x = k) (rows (set_kvl k2 v t s)) = Some r' \<and>
            createTime r' = createTime r \<and> rowid r' = rowid r"
    by (rule set_keeps_createTime)
next
  assume "find (\<lambda>x. key x = k) (rows s) = Some r" and "tags k2 tgs t s = Inr (x, s')"
  then show "\<exists>r'. find (\<lambda>x. key x = k) (rows s') = Some r' \<and>
               createTime r' = createTime r \<and> rowid r' = rowid r"
    by (rule tags_keeps_createTime)
next
  assume a: "find (\<lambda>x. key x = k) (rows s) = Some r"
    and b: "valid s \<and> find (\<lambda>x. key x = k) (rows (exec c t s)) = Some r1"
  from b have "valid s" and "find (\<lambda>x. key x = k) (rows (exec c t s)) = Some r1" by simp_all
  from exec_keeps_createTime[OF this(1) a this(2)]
  show "createTime r1 = createTime r" and "rowid r1 = rowid r" by simp_all
next
  assume b: "valid s \<and> r0 \<in> set (rows s) \<and> r2 \<in> set (rows (run cs s)) \<and> rowid r2 = rowid r0"
  then have "valid s" "r0 \<in> set (rows s)" "r2 \<in> set (rows (run cs s))" "rowid r2 = rowid r0"
    by simp_all
  from run_keeps_createTime[OF this]
  show "createTime r2 = createTime r0" and "key r2 = key r0" by simp_all
qed

theorem createTime_fixed_witness:
  "find (\<lambda>x. key x = ''k'') (rows store0) = Some \<lparr>rowid = 2, key = ''k'', val = ''x'', labels = Some ''red'', createTime = 110, updateTime = 150\<rparr> \<and>
   (\<exists>r'. find (\<lambda>x. key x = ''k'') (rows (set_kvl ''k'' ''y'' 400 store0)) = Some r' \<and>
         createTime r' = createTime \<lparr>rowid = 2, key = ''k'', val = ''x'', labels = Some ''red'', createTime = 110, updateTime = 150\<rparr> \<and> rowid r' = rowid \<lparr>rowid = 2, key = ''k'', val = ''x'', labels = Some ''red'', createTime = 110, updateTime = 150\<rparr>) \<and>
   tags ''k'' (Some ''blue'') 400 store0 = Inr (Undefined, update_labels ''blue'' 400 ''k'' store0) \<and>
   (\<exists>r'. find (\<lambda>x. key x = ''k'') (rows (update_labels ''blue'' 400 ''k'' store0)) = Some r' \<and>
         createTime r' = createTime \<lparr>rowid = 2, key = ''k'', val = ''x'', labels = Some ''red'', createTime = 110, updateTime = 150\<rparr> \<and> rowid r' = rowid \<lparr>rowid = 2, key = ''k'', val = ''x'', labels = Some ''red'', createTime = 110, updateTime = 150\<rparr>) \<and>
   (valid store0 \<and>
    find (\<lambda>x. key x = ''k'') (rows (exec (Shift ''q'') 400 store0)) = Some \<lparr>rowid = 2, key = ''k'', val = ''x'', labels = Some ''red'', createTime = 110, updateTime = 150\<rparr>) \<and>
   (valid store0 \<and> \<lparr>rowid = 2, key = ''k'', val = ''x'', labels = Some ''red'', createTime = 110, updateTime = 150\<rparr> \<in> set (rows store0) \<and>
    \<lparr>rowid = 2, key = ''k'', val = ''y'', labels = Some ''blue'', createTime = 110, updateTime = 400\<rparr> \<in> set (rows (run [(Set ''k'' ''y'', 300), (Expire, 320), (Tags ''k'' (Some ''blue''), 400), (Shift ''q'', 500), (Push ''q'' ''c'' ''u3'', 600)] store0)) \<and>
    rowid \<lparr>rowid = 2, key = ''k'', val = ''y'', labels = Some ''blue'', createTime = 110, updateTime = 400\<rparr> = rowid \<lparr>rowid = 2, key = ''k'', val = ''x'', labels = Some ''red'', createTime = 110, updateTime = 150\<rparr>) \<and>
   createTime \<lparr>rowid = 2, key = ''k'', val = ''y'', labels = Some ''blue'', createTime = 110, updateTime = 400\<rparr> = createTime \<lparr>rowid = 2, key = ''k'', val = ''x'', labels = Some ''red'', createTime = 110, updateTime = 150\<rparr>"
proof -
  have h0: "find (\<lambda>x. key x = ''k'') (rows store0) = Some \<lparr>rowid = 2, key = ''k'', val = ''x'', labels = Some ''red'', createTime = 110, updateTime = 150\<rparr>"
    by (simp add: store0_def)
  have h1: "valid store0" by (simp add: valid_def store0_def)
  have h2: "\<lparr>rowid = 2, key = ''k'', val = ''x'', labels = Some ''red'', createTime = 110, updateTime = 150\<rparr> \<in> set (rows store0)" by (simp add: store0_def)
  have ht: "tags ''k'' (Some ''blue'') 400 store0 = Inr (Undefined, update_labels ''blue'' 400 ''k'' store0)"
    by (simp add: tags_def store0_def)
  have hs: "find (\<lambda>x. key x = ''k'') (rows (exec (Shift ''q'') 400 store0)) = Some \<lparr>rowid = 2, key = ''k'', val = ''x'', labels = Some ''red'', createTime = 110, updateTime = 150\<rparr>"
    by (simp add: shift_def members_def sql_like_def cstr_def delete_by_id_def store0_def to_lower_def)
  have run: "rows (run [(Set ''k'' ''y'', 300), (Expire, 320), (Tags ''k'' (Some ''blue''), 400), (Shift ''q'', 500), (Push ''q'' ''c'' ''u3'', 600)] store0) =
     [\<lparr>rowid = 2, key = ''k'', val = ''y'', labels = Some ''blue'', createTime = 110, updateTime = 400\<rparr>,
      \<lparr>rowid = 6, key = ''q:u3'', val = ''c'', labels = None, createTime = 600, updateTime = 600\<rparr>]"
    by (simp add: store0_def set_kvl_def insert_or_ignore_def update_value_def expire_def tags_def
          update_labels_def shift_def members_def sql_like_def cstr_def push_def Let_def to_lower_def)
  have h3: "\<lparr>rowid = 2, key = ''k'', val = ''y'', labels = Some ''blue'', createTime = 110, updateTime = 400\<rparr> \<in> set (rows (run [(Set ''k'' ''y'', 300), (Expire, 320), (Tags ''k'' (Some ''blue''), 400), (Shift ''q'', 500), (Push ''q'' ''c'' ''u3'', 600)] store0))"
    unfolding run by simp
  have h4: "rowid \<lparr>rowid = 2, key = ''k'', val = ''y'', labels = Some ''blue'', createTime = 110, updateTime = 400\<rparr> = rowid \<lparr>rowid = 2, key = ''k'', val = ''x'', labels = Some ''red'', createTime = 110, updateTime = 150\<rparr>" by simp
  have e0: "valid store0 \<and>
    find (\<lambda>x. key x = ''k'') (rows (exec (Shift ''q'') 400 store0)) = Some \<lparr>rowid = 2, key = ''k'', val = ''x'', labels = Some ''red'', createTime = 110, updateTime = 150\<rparr>"
    using h1 hs by (rule conjI)
  have d0: "valid store0 \<and> \<lparr>rowid = 2, key = ''k'', val = ''x'', labels = Some ''red'', createTime = 110, updateTime = 150\<rparr> \<in> set (rows store0) \<and>
    \<lparr>rowid = 2, key = ''k'', val = ''y'', labels = Some ''blue'', createTime = 110, updateTime = 400\<rparr> \<in> set (rows (run [(Set ''k'' ''y'', 300), (Expire, 320), (Tags ''k'' (Some ''blue''), 400), (Shift ''q'', 500), (Push ''q'' ''c'' ''u3'', 600)] store0)) \<and>
    rowid \<lparr>rowid = 2, key = ''k'', val = ''y'', labels = Some ''blue'', createTime = 110, updateTime = 400\<rparr> = rowid \<lparr>rowid = 2, key = ''k'', val = ''x'', labels = Some ''red'', createTime = 110, updateTime = 150\<rparr>"
    by (intro conjI) (rule h1, rule h2, rule h3, rule h4)
  note T = createTime_fixed[where s=store0 and k="''k''" and r="\<lparr>rowid = 2, key = ''k'', val = ''x'', labels = Some ''red'', createTime = 110, updateTime = 150\<rparr>" and ?k2.0="''k''" and v="''y''"
      and t=400 and tgs="Some ''blue''" and x=Undefined and s'="update_labels ''blue'' 400 ''k'' store0"
      and c="Shift ''q''" and ?r1.0="\<lparr>rowid = 2, key = ''k'', val = ''x'', labels = Some ''red'', createTime = 110, updateTime = 150\<rparr>"
      and ?r0.0="\<lparr>rowid = 2, key = ''k'', val = ''x'', labels = Some ''red'', createTime = 110, updateTime = 150\<rparr>" and ?r2.0="\<lparr>rowid = 2, key = ''k'', val = ''y'', labels = Some ''blue'', createTime = 110, updateTime = 400\<rparr>" and cs="[(Set ''k'' ''y'', 300), (Expire, 320), (Tags ''k'' (Some ''blue''), 400), (Shift ''q'', 500), (Push ''q'' ''c'' ''u3'', 600)]"]
  note p = mp[OF conjunct1[OF T] h0]
  note a = conjunct1[OF p]
  note b = mp[OF conjunct1[OF conjunct2[OF p]] ht]
  note c = conjunct1[OF mp[OF conjunct2[OF T] d0]]
  show ?thesis
    by (intro conjI) (rule h0, rule a, rule ht, rule b, rule h1, rule hs, rule h1, rule h2, rule h3, rule h4, rule c)
qed

subsection \<open>Queues and stacks\<close>

lemma sorted_members: "valid s \<Longrightarrow> sorted_wrt (<) (map rowid (members name s))"
  unfolding valid_def members_def
  by (simp add: sorted_wrt_map sorted_wrt_filter)

lemma sort_members: "valid s \<Longrightarrow> sort_key rowid (members name s) = members name s"
  by (rule sort_key_id_if_sorted) (simp add: sorted_members strict_sorted_imp_sorted)

lemma members_delete:
  "members name (delete_by_id i s) = filter (\<lambda>r. rowid r \<noteq> i) (members name s)"
  by (simp add: members_def delete_by_id_def conj_commute)

lemma filter_others:
  "distinct (map rowid (m # ms)) \<Longrightarrow> filter (\<lambda>r. rowid r \<noteq> rowid m) (m # ms) = ms"
proof -
  assume "distinct (map rowid (m # ms))"
  then have "\<forall>x \<in> set ms. rowid x \<noteq> rowid m" by (simp add: image_iff) metis
  then show ?thesis by (simp add: filter_id_conv)
qed


lemma members_positive: "valid s \<Longrightarrow> m \<in> set (members name s) \<Longrightarrow> rowid m \<noteq> 0"
  by (auto simp: valid_def members_def list_all_iff)

lemma distinct_members: "valid s \<Longrightarrow> distinct (map rowid (members name s))"
  using sorted_members[of s name] by (simp add: strict_sorted_iff)

lemma shift_step:
  assumes "valid s" "members name s = m # ms"
  shows "shift name s = (Str (val m), delete_by_id (rowid m) s)"
    and "members name (delete_by_id (rowid m) s) = ms"
proof -
  have "rowid m \<noteq> 0" using members_positive[OF assms(1), of m name] assms(2) by simp
  moreover have "sort_key rowid (members name s) = m # ms"
    using sort_members[OF assms(1), of name] assms(2) by simp
  ultimately show "shift name s = (Str (val m), delete_by_id (rowid m) s)"
    by (simp add: shift_def)
  have "distinct (map rowid (m # ms))" using distinct_members[OF assms(1), of name] assms(2) by simp
  then show "members name (delete_by_id (rowid m) s) = ms"
    unfolding members_delete assms(2) by (rule filter_others)
qed


lemma shift_empty: "members name s = [] \<Longrightarrow> shift name s = (Undefined, s)"
  by (simp add: shift_def)


lemma shift_n_members:
  "valid s \<Longrightarrow> members name s = ms \<Longrightarrow>
   fst (shift_n (length ms) name s) = map (\<lambda>r. Str (val r)) ms \<and>
   members name (snd (shift_n (length ms) name s)) = [] \<and>
   valid (snd (shift_n (length ms) name s))"
proof (induction ms arbitrary: s)
  case Nil
  then show ?case by simp
next
  case (Cons m ms)
  let ?s1 = "delete_by_id (rowid m) s"
  note st = shift_step[OF Cons.prems]
  have v1: "valid ?s1" using Cons.prems(1) by (rule valid_delete_by_id)
  obtain xs s2 where sn: "shift_n (length ms) name ?s1 = (xs, s2)"
    by (cases "shift_n (length ms) name ?s1")
  from Cons.IH[OF v1 st(2)] sn show ?case
    by (simp add: st(1))
qed



lemma rows_set_kvl_fresh:
  assumes "k \<notin> set (map key (rows s))"
  shows "rows (set_kvl k v t s) = rows s @
           [\<lparr>rowid = Suc (seq s), key = k, val = v, labels = None, createTime = t, updateTime = t\<rparr>]"
proof -
  let ?f = "\<lambda>r. if key r = k then r\<lparr>val := v, updateTime := t\<rparr> else r"
  let ?new = "\<lparr>rowid = Suc (seq s), key = k, val = v, labels = None, createTime = t, updateTime = t\<rparr>"
  have "rows (insert_or_ignore t t k v s) = rows s @ [?new]"
    using assms by (simp add: insert_or_ignore_def)
  then have "rows (set_kvl k v t s) = map ?f (rows s) @ [?f ?new]"
    by (simp add: set_kvl_def update_value_def)
  moreover have "map ?f (rows s) = rows s"
    using assms by (intro map_idI) auto
  moreover have "?f ?new = ?new" by simp
  ultimately show ?thesis by simp
qed

lemma members_push_fresh:
  assumes "name @ '':'' @ uuid \<notin> set (map key (rows s))"
  shows "map val (members name (snd (push name v uuid t s))) = map val (members name s) @ [v]"
    and "set (map key (rows (snd (push name v uuid t s))))
           = insert (name @ '':'' @ uuid) (set (map key (rows s)))"
proof -
  have r: "rows (snd (push name v uuid t s)) = rows s @
           [\<lparr>rowid = Suc (seq s), key = name @ '':'' @ uuid, val = v, labels = None,
             createTime = t, updateTime = t\<rparr>]"
    using rows_set_kvl_fresh[OF assms] by (simp add: push_def Let_def)
  show "map val (members name (snd (push name v uuid t s))) = map val (members name s) @ [v]"
    unfolding members_def r using sql_like_own_key[of name uuid] by simp
  show "set (map key (rows (snd (push name v uuid t s))))
           = insert (name @ '':'' @ uuid) (set (map key (rows s)))"
    unfolding r by simp
qed

lemma push_all_members:
  "valid s \<Longrightarrow> distinct (map (\<lambda>p. fst (snd p)) ps) \<Longrightarrow>
   (\<forall>p \<in> set ps. name @ '':'' @ fst (snd p) \<notin> set (map key (rows s))) \<Longrightarrow>
   map val (members name (push_all name ps s)) = map val (members name s) @ map fst ps \<and>
   valid (push_all name ps s)"
proof (induction ps arbitrary: s)
  case Nil
  then show ?case by simp
next
  case (Cons p ps)
  obtain v uuid t where p: "p = (v, uuid, t)" by (cases p)
  let ?s1 = "snd (push name v uuid t s)"
  from Cons.prems(3) p have fresh: "name @ '':'' @ uuid \<notin> set (map key (rows s))" by simp
  note mp = members_push_fresh[OF fresh, of v t]
  have v1: "valid ?s1" using Cons.prems(1) by (rule valid_push)
  from Cons.prems(2) p have d: "distinct (map (\<lambda>p. fst (snd p)) ps)"
    and nu: "\<forall>q \<in> set ps. fst (snd q) \<noteq> uuid" by auto
  have f1: "\<forall>q \<in> set ps. name @ '':'' @ fst (snd q) \<notin> set (map key (rows ?s1))"
    unfolding mp(2) using Cons.prems(3) nu by simp
  from Cons.IH[OF v1 d f1] show ?case by (simp add: p mp(1))
qed

lemma empty_list_fresh:
  assumes "members name s = []"
  shows "name @ '':'' @ uuid \<notin> set (map key (rows s))"
proof
  assume "name @ '':'' @ uuid \<in> set (map key (rows s))"
  then obtain r where r: "r \<in> set (rows s)" "key r = name @ '':'' @ uuid" by auto
  then have "r \<in> set (members name s)" using sql_like_own_key[of name uuid] by (simp add: members_def)
  with assms show False by simp
qed

text \<open>
  Claim C2. Start from a table that satisfies the schema and in which list \<open>name\<close> has
  no member, and push the values \<open>v1, \<dots>, vn\<close> to \<open>name\<close>, each with a token of its own.
  Then \<open>n\<close> calls of \<open>shift\<close> return \<open>v1, \<dots>, vn\<close> in this order, and one more \<open>shift\<close>
  returns \<open>undefined\<close> and leaves the store as it is.
\<close>

theorem fifo_order:
  assumes "valid s" and "members name s = []" and "distinct (map (\<lambda>p. fst (snd p)) ps)"
  shows "fst (shift_n (length ps) name (push_all name ps s)) = map (\<lambda>p. Str (fst p)) ps \<and>
         shift name (snd (shift_n (length ps) name (push_all name ps s)))
           = (Undefined, snd (shift_n (length ps) name (push_all name ps s)))"
proof -
  let ?s1 = "push_all name ps s"
  have fresh: "\<forall>p \<in> set ps. name @ '':'' @ fst (snd p) \<notin> set (map key (rows s))"
    using empty_list_fresh[OF assms(2)] by blast
  from push_all_members[OF assms(1,3) fresh]
  have mv: "map val (members name ?s1) = map fst ps" and v1: "valid ?s1"
    by (simp_all add: assms(2))
  from mv have len: "length (members name ?s1) = length ps"
    by (metis length_map)
  from shift_n_members[OF v1 refl, of name]
  have res: "fst (shift_n (length ps) name ?s1) = map (\<lambda>r. Str (val r)) (members name ?s1)"
    and emp: "members name (snd (shift_n (length ps) name ?s1)) = []"
    by (simp_all add: len)
  have "map (\<lambda>r. Str (val r)) (members name ?s1) = map Str (map val (members name ?s1))" by simp
  also have "\<dots> = map (\<lambda>p. Str (fst p)) ps" by (simp add: mv)
  finally have "fst (shift_n (length ps) name ?s1) = map (\<lambda>p. Str (fst p)) ps" using res by simp
  with shift_empty[OF emp] show ?thesis by simp
qed



theorem fifo_order_witness:
  "valid store0 \<and> members ''w'' store0 = [] \<and>
   distinct (map (\<lambda>p. fst (snd p)) [(''a'', ''u1'', 10::int), (''b'', ''u2'', 11), (''c'', ''u3'', 11)]) \<and>
   fst (shift_n (length [(''a'', ''u1'', 10::int), (''b'', ''u2'', 11), (''c'', ''u3'', 11)]) ''w'' (push_all ''w'' [(''a'', ''u1'', 10::int), (''b'', ''u2'', 11), (''c'', ''u3'', 11)] store0)) = map (\<lambda>p. Str (fst p)) [(''a'', ''u1'', 10::int), (''b'', ''u2'', 11), (''c'', ''u3'', 11)] \<and>
   map (\<lambda>p. Str (fst p)) [(''a'', ''u1'', 10::int), (''b'', ''u2'', 11), (''c'', ''u3'', 11)] = [Str ''a'', Str ''b'', Str ''c''] \<and>
   shift ''w'' (snd (shift_n (length [(''a'', ''u1'', 10::int), (''b'', ''u2'', 11), (''c'', ''u3'', 11)]) ''w'' (push_all ''w'' [(''a'', ''u1'', 10::int), (''b'', ''u2'', 11), (''c'', ''u3'', 11)] store0)))
     = (Undefined, snd (shift_n (length [(''a'', ''u1'', 10::int), (''b'', ''u2'', 11), (''c'', ''u3'', 11)]) ''w'' (push_all ''w'' [(''a'', ''u1'', 10::int), (''b'', ''u2'', 11), (''c'', ''u3'', 11)] store0)))"
proof -
  have h1: "valid store0" by (simp add: valid_def store0_def)
  have h2: "members ''w'' store0 = []"
    by (simp add: members_def sql_like_def cstr_def store0_def to_lower_def)
  have h3: "distinct (map (\<lambda>p. fst (snd p)) [(''a'', ''u1'', 10::int), (''b'', ''u2'', 11), (''c'', ''u3'', 11)])" by simp
  have h4: "map (\<lambda>p. Str (fst p)) [(''a'', ''u1'', 10::int), (''b'', ''u2'', 11), (''c'', ''u3'', 11)] = [Str ''a'', Str ''b'', Str ''c'']" by simp
  note T = fifo_order[OF h1 h2 h3]
  show ?thesis
    by (intro conjI) (rule h1, rule h2, rule h3, rule conjunct1[OF T], rule h4, rule conjunct2[OF T])
qed


end
